theory Spec2Isabelle
  imports Complex_Main "HOL-Library.Word"
begin

section \<open>Double precision values and the vector arithmetic\<close>

text \<open>
  A C++ \<open>double\<close>: a finite value, an infinity or a NaN. The two zeros are the one
  \<open>Fin 0\<close>: they compare equal, and a sign of a zero shows only when dividing by it.
  Every finite double is a real; only some reals are doubles.
\<close>

datatype double = Fin real | PInf | NInf | NaN

text \<open>The comparisons \<open>a < b\<close> and \<open>a <= b\<close> of two doubles: false as soon as one is a NaN.\<close>

fun dless :: "double \<Rightarrow> double \<Rightarrow> bool" where
  "dless (Fin x) (Fin y) = (x < y)"
| "dless (Fin x) PInf = True"
| "dless NInf (Fin y) = True"
| "dless NInf PInf = True"
| "dless a b = False"

fun dle :: "double \<Rightarrow> double \<Rightarrow> bool" where
  "dle (Fin x) (Fin y) = (x \<le> y)"
| "dle (Fin x) PInf = True"
| "dle NInf (Fin y) = True"
| "dle NInf PInf = True"
| "dle PInf PInf = True"
| "dle NInf NInf = True"
| "dle a b = False"

text \<open>
  \<open>Vector3d\<close> and \<open>Vector2d\<close> are Eigen column vectors of doubles, \<open>Matrix3d\<close> a matrix
  by its rows.
\<close>

type_synonym Vector3d = "double \<times> double \<times> double"
type_synonym Vector2d = "double \<times> double"
type_synonym Matrix3d = "Vector3d \<times> Vector3d \<times> Vector3d"

text \<open>
  A rigid transform (Sophus \<open>SE3\<close>): a rotation, kept as its matrix, and a translation.
\<close>

record SE3 =
  rotation_matrix :: Matrix3d
  translation :: Vector3d

text \<open>
  The vector arithmetic that \<open>getCloseViewObs\<close> calls is library code (Eigen and
  Sophus), which is not among the files and whose rounding depends on how it is
  built. It is a parameter of the model: the difference of two vectors
  (\<open>operator-\<close>), the result of \<open>normalize()\<close>, the dot product (\<open>dot\<close>) and the
  translation of the inverse of a pose (\<open>inverse().translation()\<close>). The properties
  of the selection are proved for every such arithmetic.
\<close>

record arith =
  minus3 :: "Vector3d \<Rightarrow> Vector3d \<Rightarrow> Vector3d"
  normalized3 :: "Vector3d \<Rightarrow> Vector3d"
  dot3 :: "Vector3d \<Rightarrow> Vector3d \<Rightarrow> double"
  inverse_translation :: "SE3 \<Rightarrow> Vector3d"

section \<open>Features and visual points\<close>

text \<open>
  Of a \<open>Feature\<close> the visual point reads the pose captured at anchoring time,
  \<open>T_f_w_\<close>, and the photometric score \<open>score_\<close> (a float, idealised as a real).
  Members are named as in the source without the trailing underscore.
\<close>

record Feature =
  T_f_w :: SE3
  score :: real

text \<open>
  \<open>Feature *\<close>: an address, \<open>0\<close> being the null pointer. The free store maps the
  addresses of the live features to their contents.
\<close>

type_synonym feature_ptr = nat
type_synonym feature_heap = "feature_ptr \<rightharpoonup> Feature"

definition nullptr :: feature_ptr where
  "nullptr = 0"

text \<open>
  \<open>delete p\<close>: nothing for the null pointer, releases a live object, and is undefined
  (\<open>None\<close>) for any other address, such as one already released.
\<close>

definition delete_ptr :: "feature_ptr \<Rightarrow> feature_heap \<Rightarrow> feature_heap option" where
  "delete_ptr p h =
     (if p = nullptr then Some h
      else if h p = None then None
      else Some (h(p := None)))"

text \<open>\<open>*it\<close> for a list iterator at position \<open>i\<close>; undefined at \<open>end()\<close>.\<close>

definition deref_it :: "'a list \<Rightarrow> nat \<Rightarrow> 'a option" where
  "deref_it xs i = (if i < length xs then Some (xs ! i) else None)"

text \<open>
  The members of \<open>VisualPoint\<close>, named as in the source without the trailing underscore.
\<close>

record VisualPoint =
  pos :: Vector3d
  previous_normal :: Vector3d
  normal :: Vector3d
  is_converged :: bool
  is_normal_initialized :: bool
  has_ref_patch :: bool
  obs :: "feature_ptr list"
  ref_patch :: feature_ptr

definition addFrameRef :: "VisualPoint \<Rightarrow> feature_ptr \<Rightarrow> VisualPoint" where
  "addFrameRef vp ftr = vp\<lparr>obs := ftr # obs vp\<rparr>"

text \<open>
  The scan of \<open>deleteFeatureRef\<close>: the first entry equal to \<open>ftr\<close> is deleted and erased,
  and the function returns at once.
\<close>

fun erase_first :: "feature_heap \<Rightarrow> feature_ptr list \<Rightarrow> feature_ptr
    \<Rightarrow> (feature_ptr list \<times> feature_heap) option" where
  "erase_first h [] ftr = Some ([], h)"
| "erase_first h (p # ps) ftr =
     (if p = ftr then
        (case delete_ptr p h of None \<Rightarrow> None | Some h' \<Rightarrow> Some (ps, h'))
      else
        (case erase_first h ps ftr of None \<Rightarrow> None
         | Some (ps', h') \<Rightarrow> Some (p # ps', h')))"

definition deleteFeatureRef :: "VisualPoint \<Rightarrow> feature_ptr \<Rightarrow> feature_heap
    \<Rightarrow> (VisualPoint \<times> feature_heap) option" where
  "deleteFeatureRef vp ftr h =
     (let vp1 = (if ref_patch vp = ftr
                 then vp\<lparr>ref_patch := nullptr, has_ref_patch := False\<rparr> else vp)
      in case erase_first h (obs vp1) ftr of
           None \<Rightarrow> None
         | Some (obs', h') \<Rightarrow> Some (vp1\<lparr>obs := obs'\<rparr>, h'))"

text \<open>
  The cosine \<open>getCloseViewObs\<close> computes for one observation: \<open>obs_dir\<close> is the
  normalised direction from the point to the query position.
\<close>

definition cos_angle_of :: "arith \<Rightarrow> Vector3d \<Rightarrow> Vector3d \<Rightarrow> Feature \<Rightarrow> double" where
  "cos_angle_of ar point_pos obs_dir f =
     (let dir = normalized3 ar (minus3 ar (inverse_translation ar (T_f_w f)) point_pos)
      in dot3 ar obs_dir dir)"

text \<open>
  The loop of \<open>getCloseViewObs\<close> over the observations from position \<open>i\<close> on, carrying
  \<open>min_it\<close> (as a position) and \<open>min_cos_angle\<close>. Reading through a pointer that is not
  live is undefined.
\<close>

fun close_view_loop :: "arith \<Rightarrow> feature_heap \<Rightarrow> Vector3d \<Rightarrow> Vector3d \<Rightarrow> feature_ptr list
    \<Rightarrow> nat \<Rightarrow> nat \<times> double \<Rightarrow> (nat \<times> double) option" where
  "close_view_loop ar h point_pos obs_dir [] i acc = Some acc"
| "close_view_loop ar h point_pos obs_dir (p # ps) i (min_it, min_cos_angle) =
     (case h p of
        None \<Rightarrow> None
      | Some f \<Rightarrow>
          (let cos_angle = cos_angle_of ar point_pos obs_dir f
           in close_view_loop ar h point_pos obs_dir ps (Suc i)
                (if dless min_cos_angle cos_angle then (i, cos_angle)
                 else (min_it, min_cos_angle))))"

text \<open>
  \<open>getCloseViewObs\<close> returns its \<open>bool\<close> together with the value of the reference
  parameter \<open>ftr\<close> on return; \<open>ftr\<close> is passed in with its old value.
\<close>

definition getCloseViewObs :: "arith \<Rightarrow> feature_heap \<Rightarrow> VisualPoint \<Rightarrow> Vector3d
    \<Rightarrow> feature_ptr \<Rightarrow> Vector2d \<Rightarrow> (bool \<times> feature_ptr) option" where
  "getCloseViewObs ar h vp framepos ftr cur_px =
     (if length (obs vp) \<le> 0 then Some (False, ftr)
      else
        (let obs_dir = normalized3 ar (minus3 ar framepos (pos vp))
         in case close_view_loop ar h (pos vp) obs_dir (obs vp) 0 (0, Fin 0) of
              None \<Rightarrow> None
            | Some (min_it, min_cos_angle) \<Rightarrow>
                (case deref_it (obs vp) min_it of
                   None \<Rightarrow> None
                 | Some ftr' \<Rightarrow>
                     if dless min_cos_angle (Fin (1 / 2)) then Some (False, ftr')
                     else Some (True, ftr'))))"

text \<open>\<open>std::numeric_limits<float>::max()\<close>.\<close>

definition FLT_MAX :: real where
  "FLT_MAX = 340282346638528859811704183484516925440"

text \<open>
  The loop of \<open>findMinScoreFeature\<close> from position \<open>i\<close> on, carrying \<open>min_it\<close> (as a
  position) and \<open>min_score\<close>.
\<close>

fun min_score_loop :: "feature_heap \<Rightarrow> feature_ptr list \<Rightarrow> nat \<Rightarrow> nat \<times> real
    \<Rightarrow> (nat \<times> real) option" where
  "min_score_loop h [] i acc = Some acc"
| "min_score_loop h (p # ps) i (min_it, min_score) =
     (case h p of
        None \<Rightarrow> None
      | Some f \<Rightarrow>
          min_score_loop h ps (Suc i)
            (if score f < min_score then (i, score f) else (min_it, min_score)))"

text \<open>
  \<open>findMinScoreFeature\<close> returns the value written to its reference parameter \<open>ftr\<close>.
  On an empty list \<open>*min_it\<close> reads at \<open>end()\<close>: undefined.
\<close>

definition findMinScoreFeature :: "feature_heap \<Rightarrow> VisualPoint \<Rightarrow> Vector3d \<Rightarrow> feature_ptr option" where
  "findMinScoreFeature h vp framepos =
     (case min_score_loop h (obs vp) 0 (0, FLT_MAX) of
        None \<Rightarrow> None
      | Some (min_it, min_score) \<Rightarrow> deref_it (obs vp) min_it)"

text \<open>
  The loop of \<open>deleteNonRefPatchFeatures\<close>: every entry different from \<open>ref_patch\<close> is
  deleted and erased, the others are stepped over.
\<close>

fun erase_non_ref :: "feature_heap \<Rightarrow> feature_ptr list \<Rightarrow> feature_ptr
    \<Rightarrow> (feature_ptr list \<times> feature_heap) option" where
  "erase_non_ref h [] r = Some ([], h)"
| "erase_non_ref h (p # ps) r =
     (if p \<noteq> r then
        (case delete_ptr p h of None \<Rightarrow> None | Some h' \<Rightarrow> erase_non_ref h' ps r)
      else
        (case erase_non_ref h ps r of None \<Rightarrow> None
         | Some (ps', h') \<Rightarrow> Some (p # ps', h')))"

definition deleteNonRefPatchFeatures :: "VisualPoint \<Rightarrow> feature_heap
    \<Rightarrow> (VisualPoint \<times> feature_heap) option" where
  "deleteNonRefPatchFeatures vp h =
     (case erase_non_ref h (obs vp) (ref_patch vp) of
        None \<Rightarrow> None
      | Some (obs', h') \<Rightarrow> Some (vp\<lparr>obs := obs'\<rparr>, h'))"

section \<open>Images\<close>

text \<open>
  A \<open>cv::Mat\<close> header: the dimensions, the type code and the pointer to the pixel
  buffer (\<open>None\<close> for the null pointer). Copying a header shares the buffer. The
  buffers live in a store indexed by address; a new buffer gets the next address.
  Rows are stored one after the other without padding.
\<close>

record Mat =
  rows :: nat
  cols :: nat
  mat_type :: int
  data :: "nat option"

type_synonym image_heap = "8 word list list"

definition CV_8U :: int where
  "CV_8U = 0"

definition CV_8UC1 :: int where
  "CV_8UC1 = 0"

text \<open>The default-constructed \<open>cv::Mat()\<close>.\<close>

definition Mat_default :: Mat where
  "Mat_default = \<lparr>rows = 0, cols = 0, mat_type = 0, data = None\<rparr>"

text \<open>\<open>cv::Mat::empty()\<close>: no buffer or no element.\<close>

definition Mat_empty :: "Mat \<Rightarrow> bool" where
  "Mat_empty m = (data m = None \<or> rows m * cols m = 0)"

text \<open>
  \<open>cv::Mat(rows, cols, type)\<close> for a one-byte element type: a fresh buffer of
  \<open>rows * cols\<close> bytes, whose content is not initialised (here: zeros), and no buffer
  at all when there is no element.
\<close>

definition Mat_create :: "nat \<Rightarrow> nat \<Rightarrow> int \<Rightarrow> image_heap \<Rightarrow> Mat \<times> image_heap" where
  "Mat_create r c t h =
     (if r * c = 0 then (\<lparr>rows = r, cols = c, mat_type = t, data = None\<rparr>, h)
      else (\<lparr>rows = r, cols = c, mat_type = t, data = Some (length h)\<rparr>,
            h @ [replicate (r * c) 0]))"

text \<open>The byte at row \<open>y\<close>, column \<open>x\<close> of a buffer holding rows of \<open>w\<close> bytes.\<close>

definition buf_at :: "8 word list \<Rightarrow> nat \<Rightarrow> nat \<Rightarrow> nat \<Rightarrow> 8 word" where
  "buf_at buf w y x = (if y * w + x < length buf then buf ! (y * w + x) else 0)"

text \<open>The pixel at row \<open>y\<close>, column \<open>x\<close> of an image, read through its header.\<close>

definition pixel :: "image_heap \<Rightarrow> Mat \<Rightarrow> nat \<Rightarrow> nat \<Rightarrow> 8 word" where
  "pixel h m y x =
     (case data m of
        None \<Rightarrow> 0
      | Some a \<Rightarrow> if a < length h then buf_at (h ! a) (cols m) y x else 0)"

text \<open>
  Modelled from the spec: the average that \<open>vk::halfSample\<close> takes of a 2 by 2 block
  (the source of \<open>vk::halfSample\<close>, vikit's vision module, is not among the files).
  The spec: each level is the half-sampled predecessor, a 2 by 2 box average. Pixel
  values are bytes, so the average is the integer quotient of the sum by four.
\<close>

definition box_average :: "8 word \<Rightarrow> 8 word \<Rightarrow> 8 word \<Rightarrow> 8 word \<Rightarrow> 8 word" where
  "box_average a b c d = of_nat ((unat a + unat b + unat c + unat d) div 4)"

text \<open>
  Modelled from the spec: the pixels \<open>vk::halfSample\<close> writes, row after row, for an
  output of \<open>out_rows\<close> by \<open>out_cols\<close> pixels read from a buffer with rows of \<open>w\<close>
  bytes: the pixel at row \<open>y\<close>, column \<open>x\<close> is the box average of the input pixels at
  the rows \<open>2y\<close>, \<open>2y + 1\<close> and the columns \<open>2x\<close>, \<open>2x + 1\<close>.
\<close>

definition half_pixels :: "8 word list \<Rightarrow> nat \<Rightarrow> nat \<Rightarrow> nat \<Rightarrow> 8 word list" where
  "half_pixels buf w out_rows out_cols =
     map (\<lambda>i. let y = i div out_cols; x = i mod out_cols
              in box_average (buf_at buf w (2 * y) (2 * x)) (buf_at buf w (2 * y) (2 * x + 1))
                   (buf_at buf w (2 * y + 1) (2 * x)) (buf_at buf w (2 * y + 1) (2 * x + 1)))
       [0 ..< out_rows * out_cols]"

text \<open>
  Modelled from the spec: \<open>vk::halfSample(in, out)\<close>, which \<open>createImgPyramid\<close> calls
  and whose source is not among the files. It fills the buffer of \<open>out\<close> with the
  half-sampling of \<open>in\<close> and touches nothing else; with no buffer to write there is
  nothing to do.
\<close>

definition halfSample :: "Mat \<Rightarrow> Mat \<Rightarrow> image_heap \<Rightarrow> image_heap" where
  "halfSample m_in m_out h =
     (case (data m_in, data m_out) of
        (Some a, Some b) \<Rightarrow>
          if a < length h \<and> b < length h
          then h[b := half_pixels (h ! a) (cols m_in) (rows m_out) (cols m_out)]
          else h
      | _ \<Rightarrow> h)"

text \<open>\<open>std::vector::resize\<close> with default-constructed new elements.\<close>

definition resize :: "nat \<Rightarrow> Mat list \<Rightarrow> Mat list" where
  "resize n pyr = take n pyr @ replicate (n - length pyr) Mat_default"

text \<open>The loop of \<open>createImgPyramid\<close> from level \<open>i\<close> on.\<close>

function pyramid_loop :: "int \<Rightarrow> int \<Rightarrow> Mat list \<Rightarrow> image_heap \<Rightarrow> Mat list \<times> image_heap" where
  "pyramid_loop i n_levels pyr h =
     (if i < n_levels then
        (let prev = pyr ! nat (i - 1);
             (m, h1) = Mat_create (rows prev div 2) (cols prev div 2) CV_8U h;
             pyr1 = pyr[nat i := m];
             h2 = halfSample (pyr1 ! nat (i - 1)) (pyr1 ! nat i) h1
         in pyramid_loop (i + 1) n_levels pyr1 h2)
      else (pyr, h))"
  by pat_completeness auto
termination
  by (relation "measure (\<lambda>(i, n_levels, pyr, h). nat (n_levels - i))") auto

text \<open>
  \<open>createImgPyramid\<close> fills the vector passed by reference; the buffers it creates are
  added to the store. With fewer than one level the write to \<open>pyr[0]\<close> is out of
  range (or \<open>resize\<close> throws): no result.
\<close>

definition createImgPyramid :: "Mat \<Rightarrow> int \<Rightarrow> Mat list \<Rightarrow> image_heap
    \<Rightarrow> (Mat list \<times> image_heap) option" where
  "createImgPyramid img_level_0 n_levels pyr h =
     (if n_levels < 1 then None
      else Some (pyramid_loop 1 n_levels ((resize (nat n_levels) pyr)[0 := img_level_0]) h))"

section \<open>Frames\<close>

text \<open>
  The camera model, of which the frame reads \<open>width()\<close> and \<open>height()\<close>. The handle
  \<open>cam_\<close> is taken to point to a live camera.
\<close>

record AbstractCamera =
  width :: int
  height :: int

datatype exception = runtime_error string

text \<open>
  What a construction touches besides the frame: the static \<open>frame_counter_\<close>, a
  C++ \<open>int\<close> kept as a 32-bit two's complement word (read with \<open>sint\<close>; the
  increment of \<open>INT_MAX\<close>, undefined in C++, wraps around here), and the lines written
  to \<open>std::cerr\<close>.
\<close>

record process_state =
  frame_counter :: "32 word"
  cerr :: "string list"

text \<open>
  The members of \<open>Frame\<close> that the constructor sets: \<open>id_\<close> (here \<open>id_frame\<close>,
  \<open>id\<close> being the identity function of HOL), \<open>cam_\<close>, \<open>img_\<close> and the feature list
  \<open>fts_\<close>, which starts empty.
\<close>

record Frame =
  id_frame :: "32 word"
  cam :: AbstractCamera
  img :: Mat
  fts :: "feature_ptr list"

definition initFrame :: "Frame \<Rightarrow> Mat \<Rightarrow> process_state \<Rightarrow> (exception + Frame) \<times> process_state" where
  "initFrame fr im st =
     (if Mat_empty im then (Inl (runtime_error ''Frame: provided image is empty''), st)
      else
        (let st1 = (if int (cols im) \<noteq> width (cam fr) \<or> int (rows im) \<noteq> height (cam fr)
                    then st\<lparr>cerr := cerr st @
                      [''Frame: image size differs from camera model, continue with scaled input.'']\<rparr>
                    else st)
         in if mat_type im \<noteq> CV_8UC1
            then (Inl (runtime_error ''Frame: provided image is not grayscale''), st1)
            else (Inr (fr\<lparr>img := im\<rparr>), st1)))"

text \<open>
  The constructor: the member initialisers take the counter's value as the id and
  increment the counter, then the body runs \<open>initFrame\<close>. An exception leaves no frame.
\<close>

definition Frame_ctor :: "AbstractCamera \<Rightarrow> Mat \<Rightarrow> process_state
    \<Rightarrow> (exception + Frame) \<times> process_state" where
  "Frame_ctor camera im st =
     (let fr = \<lparr>id_frame = frame_counter st, cam = camera, img = Mat_default, fts = []\<rparr>;
          st1 = st\<lparr>frame_counter := frame_counter st + 1\<rparr>
      in initFrame fr im st1)"

text \<open>A sequence of construction attempts in one process, in order.\<close>

fun construct_frames :: "(AbstractCamera \<times> Mat) list \<Rightarrow> process_state
    \<Rightarrow> (exception + Frame) list \<times> process_state" where
  "construct_frames [] st = ([], st)"
| "construct_frames ((camera, im) # rest) st =
     (let (r, st1) = Frame_ctor camera im st;
          (rs, st2) = construct_frames rest st1
      in (r # rs, st2))"

text \<open>The ids of the frames that were constructed, in order of construction.\<close>

fun constructed_ids :: "(exception + Frame) list \<Rightarrow> 32 word list" where
  "constructed_ids [] = []"
| "constructed_ids (Inl e # rs) = constructed_ids rs"
| "constructed_ids (Inr f # rs) = id_frame f # constructed_ids rs"

text \<open>The images a frame holds: its one member \<open>img_\<close>.\<close>

definition frame_images :: "Frame \<Rightarrow> Mat list" where
  "frame_images f = [img f]"

text \<open>
  The two exceptions of \<open>initFrame\<close>, both \<open>std::runtime_error\<close>, under the names the
  specification gives to the two failures.
\<close>

definition EmptyImage :: exception where
  "EmptyImage = runtime_error ''Frame: provided image is empty''"

definition BadPixelFormat :: exception where
  "BadPixelFormat = runtime_error ''Frame: provided image is not grayscale''"

definition size_warning :: string where
  "size_warning = ''Frame: image size differs from camera model, continue with scaled input.''"

section \<open>The arithmetic of IEEE 754 doubles\<close>

text \<open>
  One arithmetic to run the model on concrete inputs: IEEE 754 binary64 with rounding
  to nearest, ties to even, and Eigen's and Sophus' formulas on top of it.

  \<open>rne\<close> rounds a real to the nearest integer, a tie to the even one.
\<close>

definition rne :: "real \<Rightarrow> int" where
  "rne q =
     (let f = \<lfloor>q\<rfloor>
      in if q - of_int f < 1 / 2 then f
         else if 1 / 2 < q - of_int f then f + 1
         else if even f then f else f + 1)"

text \<open>
  The exponent of the unit in the last place at \<open>x\<close>: 52 binary places below the
  exponent of \<open>x\<close>, and the same for all \<open>x\<close> below \<open>2\<^sup>-\<^sup>1\<^sup>0\<^sup>2\<^sup>2\<close> (the subnormal range).
\<close>

definition ulp_exp :: "real \<Rightarrow> int" where
  "ulp_exp x = max \<lfloor>log 2 \<bar>x\<bar>\<rfloor> (- 1022) - 52"

text \<open>
  The double nearest to a real: a multiple of the unit in the last place, and an
  infinity when that multiple reaches \<open>2\<^sup>1\<^sup>0\<^sup>2\<^sup>4\<close>.
\<close>

definition rnd :: "real \<Rightarrow> double" where
  "rnd x =
     (if x = 0 then Fin 0
      else
        (let u = 2 powi ulp_exp x;
             y = of_int (rne (x / u)) * u
         in if 2 ^ 1024 \<le> \<bar>y\<bar> then (if 0 < x then PInf else NInf) else Fin y))"

text \<open>The operations on doubles: the exact result, rounded; the special values as in IEEE 754.\<close>

fun fneg :: "double \<Rightarrow> double" where
  "fneg (Fin x) = Fin (- x)"
| "fneg PInf = NInf"
| "fneg NInf = PInf"
| "fneg NaN = NaN"

fun fadd :: "double \<Rightarrow> double \<Rightarrow> double" where
  "fadd (Fin x) (Fin y) = rnd (x + y)"
| "fadd NaN b = NaN"
| "fadd a NaN = NaN"
| "fadd PInf NInf = NaN"
| "fadd NInf PInf = NaN"
| "fadd PInf b = PInf"
| "fadd NInf b = NInf"
| "fadd a PInf = PInf"
| "fadd a NInf = NInf"

definition fsub :: "double \<Rightarrow> double \<Rightarrow> double" where
  "fsub a b = fadd a (fneg b)"

text \<open>The product of an infinity and a value \<open>b\<close> that is not a NaN, by the sign of \<open>b\<close>.\<close>

fun inf_times :: "double \<Rightarrow> double \<Rightarrow> double" where
  "inf_times i (Fin y) = (if y = 0 then NaN else if 0 < y then i else fneg i)"
| "inf_times i PInf = i"
| "inf_times i NInf = fneg i"
| "inf_times i NaN = NaN"

fun fmul :: "double \<Rightarrow> double \<Rightarrow> double" where
  "fmul (Fin x) (Fin y) = rnd (x * y)"
| "fmul NaN b = NaN"
| "fmul a NaN = NaN"
| "fmul PInf b = inf_times PInf b"
| "fmul NInf b = inf_times NInf b"
| "fmul a PInf = inf_times PInf a"
| "fmul a NInf = inf_times NInf a"

text \<open>
  The quotient. A zero divisor is taken as the positive zero; \<open>normalize\<close>, the one
  place that divides, divides by a square root of a positive value.
\<close>

fun fdiv :: "double \<Rightarrow> double \<Rightarrow> double" where
  "fdiv (Fin x) (Fin y) =
     (if y = 0 then (if x = 0 then NaN else if 0 < x then PInf else NInf)
      else rnd (x / y))"
| "fdiv NaN b = NaN"
| "fdiv a NaN = NaN"
| "fdiv (Fin x) PInf = Fin 0"
| "fdiv (Fin x) NInf = Fin 0"
| "fdiv PInf (Fin y) = (if 0 \<le> y then PInf else NInf)"
| "fdiv NInf (Fin y) = (if 0 \<le> y then NInf else PInf)"
| "fdiv a b = NaN"

fun fsqrt :: "double \<Rightarrow> double" where
  "fsqrt (Fin x) = (if x < 0 then NaN else rnd (sqrt x))"
| "fsqrt PInf = PInf"
| "fsqrt NInf = NaN"
| "fsqrt NaN = NaN"

text \<open>
  Eigen on vectors of three doubles: the difference by components; the dot product
  and the squared norm as the sum of the three products, taken here as
  \<open>p\<^sub>0 + (p\<^sub>1 + p\<^sub>2)\<close>, the order of Eigen's unrolled reduction, each product and each
  sum rounded; \<open>normalize()\<close>, which divides each component by the rounded square root
  of the squared norm when the squared norm is positive and leaves the vector as it
  is otherwise. A squared norm that overflows is \<open>PInf\<close>, and the vector divided by
  it is zero; one that underflows to zero leaves the vector as it is.
\<close>

fun vsub :: "Vector3d \<Rightarrow> Vector3d \<Rightarrow> Vector3d" where
  "vsub (a1, a2, a3) (b1, b2, b3) = (fsub a1 b1, fsub a2 b2, fsub a3 b3)"

fun vneg :: "Vector3d \<Rightarrow> Vector3d" where
  "vneg (a1, a2, a3) = (fneg a1, fneg a2, fneg a3)"

fun dot :: "Vector3d \<Rightarrow> Vector3d \<Rightarrow> double" where
  "dot (a1, a2, a3) (b1, b2, b3) = fadd (fmul a1 b1) (fadd (fmul a2 b2) (fmul a3 b3))"

definition squaredNorm :: "Vector3d \<Rightarrow> double" where
  "squaredNorm v = dot v v"

fun vdiv :: "Vector3d \<Rightarrow> double \<Rightarrow> Vector3d" where
  "vdiv (a1, a2, a3) s = (fdiv a1 s, fdiv a2 s, fdiv a3 s)"

definition normalize :: "Vector3d \<Rightarrow> Vector3d" where
  "normalize v = (let z = squaredNorm v in if dless (Fin 0) z then vdiv v (fsqrt z) else v)"

text \<open>
  Sophus: the inverse of a pose has the transposed rotation and the translation
  \<open>R\<^sup>T (- t)\<close>, computed here with the rotation matrix. For the identity rotation,
  which the concrete inputs below have, this is \<open>- t\<close> exactly.
\<close>

fun transpose3 :: "Matrix3d \<Rightarrow> Matrix3d" where
  "transpose3 ((a11, a12, a13), (a21, a22, a23), (a31, a32, a33)) =
     ((a11, a21, a31), (a12, a22, a32), (a13, a23, a33))"

fun mat_vec :: "Matrix3d \<Rightarrow> Vector3d \<Rightarrow> Vector3d" where
  "mat_vec (r1, r2, r3) v = (dot r1 v, dot r2 v, dot r3 v)"

definition SE3_inverse :: "SE3 \<Rightarrow> SE3" where
  "SE3_inverse T =
     \<lparr>rotation_matrix = transpose3 (rotation_matrix T),
      translation = mat_vec (transpose3 (rotation_matrix T)) (vneg (translation T))\<rparr>"

definition ieee_arith :: arith where
  "ieee_arith =
     \<lparr>minus3 = vsub, normalized3 = normalize, dot3 = dot,
      inverse_translation = (\<lambda>T. translation (SE3_inverse T))\<rparr>"

section \<open>Notions used to state the properties\<close>

text \<open>
  The viewpoint cosine of an observation, as the code computes it in the arithmetic
  \<open>ar\<close>: the dot product of the normalised direction from the point to the query
  position with the normalised direction from the point to the position of the
  observing frame at anchoring time.
\<close>

definition view_cos :: "arith \<Rightarrow> VisualPoint \<Rightarrow> Vector3d \<Rightarrow> Feature \<Rightarrow> double" where
  "view_cos ar vp framepos f =
     cos_angle_of ar (pos vp) (normalized3 ar (minus3 ar framepos (pos vp))) f"

text \<open>\<open>addFrameRef\<close> called for each pointer of a list, in the order of the list.\<close>

definition add_all :: "feature_ptr list \<Rightarrow> VisualPoint \<Rightarrow> VisualPoint" where
  "add_all ps vp = fold (\<lambda>ftr v. addFrameRef v ftr) ps vp"

text \<open>
  A header is valid in a store when its buffer is there and holds \<open>rows * cols\<close> bytes;
  a header without buffer is valid when it has no element.
\<close>

definition valid_Mat :: "image_heap \<Rightarrow> Mat \<Rightarrow> bool" where
  "valid_Mat h m =
     (case data m of
        None \<Rightarrow> rows m * cols m = 0
      | Some a \<Rightarrow> a < length h \<and> length (h ! a) = rows m * cols m)"

text \<open>
  The specification's relation between a pyramid level and its predecessor: half the
  dimensions, rounded down, and every pixel the average of the 2 by 2 block of the
  predecessor.
\<close>

definition half_sampled :: "image_heap \<Rightarrow> Mat \<Rightarrow> Mat \<Rightarrow> bool" where
  "half_sampled h prev cur =
     (rows cur = rows prev div 2 \<and> cols cur = cols prev div 2 \<and>
      (\<forall>y<rows cur. \<forall>x<cols cur.
         pixel h cur y x =
           box_average (pixel h prev (2 * y) (2 * x)) (pixel h prev (2 * y) (2 * x + 1))
             (pixel h prev (2 * y + 1) (2 * x)) (pixel h prev (2 * y + 1) (2 * x + 1))))"

text \<open>A store extends another when it keeps every buffer of it unchanged.\<close>

definition heap_extends :: "image_heap \<Rightarrow> image_heap \<Rightarrow> bool" where
  "heap_extends h h' = (length h \<le> length h' \<and> (\<forall>a<length h. h' ! a = h ! a))"

section \<open>Concrete inputs\<close>

text \<open>The vector of three finite doubles with the given values.\<close>

definition vec :: "real \<Rightarrow> real \<Rightarrow> real \<Rightarrow> Vector3d" where
  "vec x y z = (Fin x, Fin y, Fin z)"

text \<open>
  A feature whose frame stood at position \<open>a\<close> when the feature was anchored: identity
  rotation and translation \<open>- a\<close>, so that the inverse pose has translation \<open>a\<close>.
\<close>

definition anchored_at :: "real \<times> real \<times> real \<Rightarrow> real \<Rightarrow> Feature" where
  "anchored_at a s =
     (case a of (x, y, z) \<Rightarrow>
        \<lparr>T_f_w = \<lparr>rotation_matrix = (vec 1 0 0, vec 0 1 0, vec 0 0 1),
                 translation = vec (- x) (- y) (- z)\<rparr>,
         score = s\<rparr>)"

definition point_at_origin :: "feature_ptr list \<Rightarrow> feature_ptr \<Rightarrow> VisualPoint" where
  "point_at_origin ps r =
     \<lparr>pos = vec 0 0 0, previous_normal = vec 0 0 0, normal = vec 0 0 0,
      is_converged = False, is_normal_initialized = False, has_ref_patch = (r \<noteq> nullptr),
      obs = ps, ref_patch = r\<rparr>"

text \<open>Two observations seen from behind and from the side of the query direction.\<close>

definition behind_and_side :: feature_heap where
  "behind_and_side = [11 \<mapsto> anchored_at (- 1, 0, 0) 0, 12 \<mapsto> anchored_at (0, 1, 0) 0]"

text \<open>Three observations along the axes, as in scenario S1 of the specification.\<close>

definition three_views :: feature_heap where
  "three_views =
     [11 \<mapsto> anchored_at (1, 0, 0) 0, 12 \<mapsto> anchored_at (0, 1, 0) 0,
      13 \<mapsto> anchored_at (- 1, 0, 0) 0]"

text \<open>
  Observations at 60 degrees from the query direction \<open>(1, 1, 0)\<close>: one anchored at
  \<open>(3, 0, 3)\<close>, one anchored at \<open>(1, 0, 1)\<close>, and both.
\<close>

definition sixty_degrees :: feature_heap where
  "sixty_degrees = [11 \<mapsto> anchored_at (3, 0, 3) 0]"

definition sixty_degrees_near :: feature_heap where
  "sixty_degrees_near = [11 \<mapsto> anchored_at (1, 0, 1) 0]"

definition sixty_degrees_twice :: feature_heap where
  "sixty_degrees_twice = [11 \<mapsto> anchored_at (1, 0, 1) 0, 12 \<mapsto> anchored_at (3, 0, 3) 0]"

text \<open>
  The doubles that occur when the cosines of these observations are computed: the
  doubles nearest to the square roots of 2 and of 18 (\<open>1.4142135623730951\<close> and
  \<open>4.242640687119285\<close>), the quotients \<open>1 / 1.4142135623730951\<close> and
  \<open>3 / 4.242640687119285\<close> as doubles (\<open>0.7071067811865475\<close> and
  \<open>0.7071067811865476\<close>), and the double just below one half.
\<close>

definition d_sqrt2 :: real where
  "d_sqrt2 = 6369051672525773 / 2 ^ 52"

definition d_sqrt18 :: real where
  "d_sqrt18 = 4776788754394329 / 2 ^ 50"

definition d_inv_sqrt2 :: real where
  "d_inv_sqrt2 = 6369051672525772 / 2 ^ 53"

definition d_3_by_sqrt18 :: real where
  "d_3_by_sqrt18 = 6369051672525773 / 2 ^ 53"

definition d_below_half :: real where
  "d_below_half = 1 / 2 - 1 / 2 ^ 53"

text \<open>
  Two observations at a right angle to the query direction \<open>(0, 1, 3)\<close>: their cosines
  are zero in exact arithmetic.
\<close>

definition right_angles :: feature_heap where
  "right_angles = [11 \<mapsto> anchored_at (1, 0, 0) 0, 12 \<mapsto> anchored_at (- 6, 3, - 1) 0]"

text \<open>
  The doubles that occur when their cosines are computed: the doubles nearest to the
  square roots of 10 and of 46 (\<open>3.1622776601683795\<close> and \<open>6.782329983125268\<close>), the
  components of the two normalised vectors, which are the quotients of 1 and 3 by the
  first and of 6, 3 and 1 by the second (\<open>0.31622776601683794\<close>,
  \<open>0.9486832980505138\<close>, \<open>0.8846517369293828\<close>, \<open>0.4423258684646914\<close> and
  \<open>0.14744195615489714\<close>), and the two products of components that are not zero
  (\<open>0.13987572123604708\<close> and \<open>0.13987572123604705\<close>).
\<close>

definition d_sqrt10 :: real where
  "d_sqrt10 = 7120816245988179 / 2 ^ 51"

definition d_sqrt46 :: real where
  "d_sqrt46 = 7636224696176675 / 2 ^ 50"

definition d_1_by_sqrt10 :: real where
  "d_1_by_sqrt10 = 5696652996790543 / 2 ^ 54"

definition d_3_by_sqrt10 :: real where
  "d_3_by_sqrt10 = 8544979495185814 / 2 ^ 53"

definition d_6_by_sqrt46 :: real where
  "d_6_by_sqrt46 = 7968234465575661 / 2 ^ 53"

definition d_3_by_sqrt46 :: real where
  "d_3_by_sqrt46 = 7968234465575661 / 2 ^ 54"

definition d_1_by_sqrt46 :: real where
  "d_1_by_sqrt46 = 5312156310383774 / 2 ^ 55"

definition d_product_1 :: real where
  "d_product_1 = 5039553968294728 / 2 ^ 55"

definition d_product_2 :: real where
  "d_product_2 = 5039553968294727 / 2 ^ 55"

text \<open>Three features with the scores 7, 3 and 3 (scenario S6).\<close>

definition three_scores :: feature_heap where
  "three_scores =
     [11 \<mapsto> anchored_at (1, 0, 0) 7, 12 \<mapsto> anchored_at (0, 1, 0) 3,
      13 \<mapsto> anchored_at (- 1, 0, 0) 3]"

text \<open>A 4 by 2 grayscale image in a store of its own, and a camera of the same size.\<close>

definition small_img :: Mat where
  "small_img = \<lparr>rows = 2, cols = 4, mat_type = CV_8UC1, data = Some 0\<rparr>"

definition small_heap :: image_heap where
  "small_heap = [[10, 20, 30, 40, 50, 60, 70, 80]]"

text \<open>A 4 by 4 grayscale image of constant brightness in a store of its own.\<close>

definition square_img :: Mat where
  "square_img = \<lparr>rows = 4, cols = 4, mat_type = CV_8UC1, data = Some 0\<rparr>"

definition square_heap :: image_heap where
  "square_heap = [replicate 16 100]"

definition small_cam :: AbstractCamera where
  "small_cam = \<lparr>width = 4, height = 2\<rparr>"

definition wide_cam :: AbstractCamera where
  "wide_cam = \<lparr>width = 640, height = 480\<rparr>"

definition fresh_process :: process_state where
  "fresh_process = \<lparr>frame_counter = 0, cerr = []\<rparr>"

section \<open>Selection by viewpoint\<close>

subsection \<open>The order of doubles\<close>

lemma dless_irrefl: "\<not> dless a a"
  by (cases a) simp_all

lemma dless_trans: "dless a b \<Longrightarrow> dless b c \<Longrightarrow> dless a c"
  by (cases a; cases b; cases c) simp_all

lemma dless_dle_trans: "dless a b \<Longrightarrow> dle b c \<Longrightarrow> dless a c"
  by (cases a; cases b; cases c) simp_all

lemma dless_not_dle: "dless a b \<Longrightarrow> \<not> dle b a"
  by (cases a; cases b) simp_all

text \<open>A value above another one is not a NaN, and is then comparable with every finite value.\<close>

lemma dle_or_dless: "dless z a \<Longrightarrow> \<not> dless a (Fin r) \<Longrightarrow> dle (Fin r) a"
  by (cases z; cases a) simp_all

subsection \<open>The loop\<close>

lemma close_view_loop_total:
  "map h ps = map Some fs \<Longrightarrow> \<exists>r. close_view_loop ar h point_pos d ps i acc = Some r"
proof (induction ps arbitrary: fs i acc)
  case Nil
  then show ?case by simp
next
  case (Cons p ps)
  then obtain f fs' where fs: "fs = f # fs'" "h p = Some f" "map h ps = map Some fs'"
    by (cases fs) auto
  obtain mi mc where acc: "acc = (mi, mc)" by (cases acc)
  show ?case using Cons.IH[OF fs(3)] fs(2) acc by (simp add: Let_def)
qed

text \<open>
  What the loop returns: either no cosine exceeded the starting value and the
  accumulator is unchanged, or the position returned holds a cosine above the starting
  value that no cosine exceeds and that no earlier cosine reaches.
\<close>

lemma close_view_loop_spec:
  assumes "map h ps = map Some fs"
    and "close_view_loop ar h point_pos d ps i (mi, mc) = Some (mi', mc')"
  shows "(mi' = mi \<and> mc' = mc \<and> (\<forall>f\<in>set fs. \<not> dless mc (cos_angle_of ar point_pos d f)))
       \<or> (i \<le> mi' \<and> mi' < i + length fs \<and> dless mc mc'
          \<and> cos_angle_of ar point_pos d (fs ! (mi' - i)) = mc'
          \<and> (\<forall>j<mi' - i. \<not> dle mc' (cos_angle_of ar point_pos d (fs ! j)))
          \<and> (\<forall>f\<in>set fs. \<not> dless mc' (cos_angle_of ar point_pos d f)))"
  using assms
proof (induction ps arbitrary: fs i mi mc)
  case Nil
  then show ?case by simp
next
  case (Cons p ps)
  then obtain f fs' where fs: "fs = f # fs'" "h p = Some f" "map h ps = map Some fs'"
    by (cases fs) auto
  let ?cos = "cos_angle_of ar point_pos d"
  let ?c = "?cos f"
  show ?case
  proof (cases "dless mc ?c")
    case True
    with Cons.prems(2) fs(2)
    have run: "close_view_loop ar h point_pos d ps (Suc i) (i, ?c) = Some (mi', mc')"
      by (simp add: Let_def)
    from Cons.IH[OF fs(3) run]
    show ?thesis
    proof
      assume a: "mi' = i \<and> mc' = ?c \<and> (\<forall>g\<in>set fs'. \<not> dless ?c (?cos g))"
      then show ?thesis using True fs(1) by (auto simp: dless_irrefl)
    next
      assume a: "Suc i \<le> mi' \<and> mi' < Suc i + length fs' \<and> dless ?c mc'
          \<and> ?cos (fs' ! (mi' - Suc i)) = mc'
          \<and> (\<forall>j<mi' - Suc i. \<not> dle mc' (?cos (fs' ! j)))
          \<and> (\<forall>g\<in>set fs'. \<not> dless mc' (?cos g))"
      then obtain k where k: "mi' - i = Suc k" "mi' - Suc i = k"
        by (metis Suc_diff_le diff_Suc_Suc)
      have up: "dless mc mc'" using True a dless_trans by blast
      have hd1: "\<not> dle mc' ?c" using a dless_not_dle by blast
      have hd2: "\<not> dless mc' ?c" using a dless_trans dless_irrefl by blast
      have "\<forall>j<Suc k. \<not> dle mc' (?cos ((f # fs') ! j))"
        using a k hd1 by (auto simp: less_Suc_eq_0_disj)
      then show ?thesis using a up hd2 fs(1) k by auto
    qed
  next
    case False
    with Cons.prems(2) fs(2)
    have run: "close_view_loop ar h point_pos d ps (Suc i) (mi, mc) = Some (mi', mc')"
      by (simp add: Let_def)
    from Cons.IH[OF fs(3) run]
    show ?thesis
    proof
      assume a: "mi' = mi \<and> mc' = mc \<and> (\<forall>g\<in>set fs'. \<not> dless mc (?cos g))"
      then show ?thesis using False fs(1) by auto
    next
      assume a: "Suc i \<le> mi' \<and> mi' < Suc i + length fs' \<and> dless mc mc'
          \<and> ?cos (fs' ! (mi' - Suc i)) = mc'
          \<and> (\<forall>j<mi' - Suc i. \<not> dle mc' (?cos (fs' ! j)))
          \<and> (\<forall>g\<in>set fs'. \<not> dless mc' (?cos g))"
      then obtain k where k: "mi' - i = Suc k" "mi' - Suc i = k"
        by (metis Suc_diff_le diff_Suc_Suc)
      have hd1: "\<not> dle mc' ?c" using a False dless_dle_trans by blast
      have hd2: "\<not> dless mc' ?c" using a False dless_trans by blast
      have "\<forall>j<Suc k. \<not> dle mc' (?cos ((f # fs') ! j))"
        using a k hd1 by (auto simp: less_Suc_eq_0_disj)
      then show ?thesis using a hd2 fs(1) k by auto
    qed
  qed
qed

text \<open>
  The whole behaviour on a non-empty list of live observations, in any arithmetic: the
  flag says whether some cosine reaches one half; when some cosine is positive, the
  pointer written is the first observation whose cosine no other exceeds; when none
  is, it is the first observation of the list.
\<close>

lemma getCloseViewObs_cases:
  assumes obs: "map h (obs vp) = map Some fs" and ne: "obs vp \<noteq> []"
  shows "\<exists>i<length (obs vp).
           getCloseViewObs ar h vp framepos ftr cur_px =
             Some (\<exists>f\<in>set fs. dle (Fin (1 / 2)) (view_cos ar vp framepos f), obs vp ! i)
         \<and> ((\<exists>f\<in>set fs. dless (Fin 0) (view_cos ar vp framepos f)) \<longrightarrow>
              (\<forall>f\<in>set fs. \<not> dless (view_cos ar vp framepos (fs ! i)) (view_cos ar vp framepos f))
              \<and> (\<forall>j<i. \<not> dle (view_cos ar vp framepos (fs ! i)) (view_cos ar vp framepos (fs ! j))))
         \<and> ((\<forall>f\<in>set fs. \<not> dless (Fin 0) (view_cos ar vp framepos f)) \<longrightarrow> i = 0)"
proof -
  let ?d = "normalized3 ar (minus3 ar framepos (pos vp))"
  let ?cos = "view_cos ar vp framepos"
  have len: "length fs = length (obs vp)"
    using obs by (metis length_map)
  have vc: "\<And>f. cos_angle_of ar (pos vp) ?d f = ?cos f"
    by (simp add: view_cos_def)
  obtain mi mc where run: "close_view_loop ar h (pos vp) ?d (obs vp) 0 (0, Fin 0) = Some (mi, mc)"
    using close_view_loop_total[OF obs, of ar "pos vp" ?d 0 "(0, Fin 0)"] by auto
  have res: "mi < length (obs vp) \<Longrightarrow> getCloseViewObs ar h vp framepos ftr cur_px =
      Some (\<not> dless mc (Fin (1 / 2)), obs vp ! mi)"
    using run ne by (simp add: getCloseViewObs_def deref_it_def Let_def)
  from close_view_loop_spec[OF obs run, unfolded vc]
  show ?thesis
  proof
    assume a: "mi = 0 \<and> mc = Fin 0 \<and> (\<forall>f\<in>set fs. \<not> dless (Fin 0) (?cos f))"
    have "dless (Fin 0) (Fin (1 / 2))" by simp
    then have "\<forall>f\<in>set fs. \<not> dle (Fin (1 / 2)) (?cos f)"
      using a dless_dle_trans by blast
    then show ?thesis using a res ne by (intro exI[of _ 0]) auto
  next
    assume a: "0 \<le> mi \<and> mi < 0 + length fs \<and> dless (Fin 0) mc
        \<and> ?cos (fs ! (mi - 0)) = mc
        \<and> (\<forall>j<mi - 0. \<not> dle mc (?cos (fs ! j)))
        \<and> (\<forall>f\<in>set fs. \<not> dless mc (?cos f))"
    then have mem: "fs ! mi \<in> set fs" by simp
    have "(\<not> dless mc (Fin (1 / 2))) = (\<exists>f\<in>set fs. dle (Fin (1 / 2)) (?cos f))"
    proof
      assume "\<not> dless mc (Fin (1 / 2))"
      then have "dle (Fin (1 / 2)) (?cos (fs ! mi))" using a dle_or_dless by auto
      then show "\<exists>f\<in>set fs. dle (Fin (1 / 2)) (?cos f)" using mem by blast
    next
      assume "\<exists>f\<in>set fs. dle (Fin (1 / 2)) (?cos f)"
      then show "\<not> dless mc (Fin (1 / 2))" using a dless_dle_trans by blast
    qed
    then show ?thesis using a res len by (intro exI[of _ mi]) auto
  qed
qed

text \<open>
  C1: in any arithmetic, for a point whose observations point to live features,
  \<open>getCloseViewObs\<close> reports not found and leaves \<open>ftr\<close> alone when the observation
  list is empty. Otherwise it reports found exactly when some observation has a
  cosine of at least one half, that is, not found when the best cosine is below one
  half; and when it reports found (more generally, when some cosine is positive), the
  observation it selects maximizes the cosine: no observation has a greater one, and
  no earlier observation has one as great. The cosines are those the code computes.
\<close>

theorem getCloseViewObs_selection:
  assumes "map h (obs vp) = map Some fs"
  shows "(obs vp = [] \<longrightarrow> getCloseViewObs ar h vp framepos ftr cur_px = Some (False, ftr)) \<and>
         (obs vp \<noteq> [] \<longrightarrow>
            (\<exists>found i. i < length (obs vp)
             \<and> getCloseViewObs ar h vp framepos ftr cur_px = Some (found, obs vp ! i)
             \<and> (found \<longleftrightarrow> (\<exists>f\<in>set fs. dle (Fin (1 / 2)) (view_cos ar vp framepos f)))
             \<and> (found \<or> (\<exists>f\<in>set fs. dless (Fin 0) (view_cos ar vp framepos f)) \<longrightarrow>
                  (\<forall>f\<in>set fs. \<not> dless (view_cos ar vp framepos (fs ! i)) (view_cos ar vp framepos f))
                  \<and> (\<forall>j<i. \<not> dle (view_cos ar vp framepos (fs ! i))
                                (view_cos ar vp framepos (fs ! j))))))"
proof (intro conjI impI)
  assume "obs vp = []"
  then show "getCloseViewObs ar h vp framepos ftr cur_px = Some (False, ftr)"
    by (simp add: getCloseViewObs_def)
next
  let ?cos = "view_cos ar vp framepos"
  assume ne: "obs vp \<noteq> []"
  from getCloseViewObs_cases[OF assms ne, of ar framepos ftr cur_px]
  obtain i where i: "i < length (obs vp)"
      "getCloseViewObs ar h vp framepos ftr cur_px =
         Some (\<exists>f\<in>set fs. dle (Fin (1 / 2)) (?cos f), obs vp ! i)"
      "(\<exists>f\<in>set fs. dless (Fin 0) (?cos f)) \<longrightarrow>
         (\<forall>f\<in>set fs. \<not> dless (?cos (fs ! i)) (?cos f))
         \<and> (\<forall>j<i. \<not> dle (?cos (fs ! i)) (?cos (fs ! j)))"
    by blast
  have "dless (Fin 0) (Fin (1 / 2))" by simp
  then have pos: "(\<exists>f\<in>set fs. dle (Fin (1 / 2)) (?cos f)) \<longrightarrow> (\<exists>f\<in>set fs. dless (Fin 0) (?cos f))"
    using dless_dle_trans by blast
  show "\<exists>found i. i < length (obs vp)
             \<and> getCloseViewObs ar h vp framepos ftr cur_px = Some (found, obs vp ! i)
             \<and> (found \<longleftrightarrow> (\<exists>f\<in>set fs. dle (Fin (1 / 2)) (?cos f)))
             \<and> (found \<or> (\<exists>f\<in>set fs. dless (Fin 0) (?cos f)) \<longrightarrow>
                  (\<forall>f\<in>set fs. \<not> dless (?cos (fs ! i)) (?cos f))
                  \<and> (\<forall>j<i. \<not> dle (?cos (fs ! i)) (?cos (fs ! j))))"
    using i pos
    by (intro exI[of _ "\<exists>f\<in>set fs. dle (Fin (1 / 2)) (?cos f)"] exI[of _ i]) blast
qed

subsection \<open>Rounding to a double\<close>

lemma rne_eqI: "\<bar>q - of_int m\<bar> < 1 / 2 \<Longrightarrow> rne q = m"
proof -
  assume a: "\<bar>q - of_int m\<bar> < 1 / 2"
  show ?thesis
  proof (cases "of_int m \<le> q")
    case True
    then have "\<lfloor>q\<rfloor> = m" using a by (intro floor_unique) auto
    then show ?thesis using a True by (simp add: rne_def)
  next
    case False
    then have f: "\<lfloor>q\<rfloor> = m - 1" using a by (intro floor_unique) auto
    have "1 / 2 < q - of_int (m - 1)" using a False by auto
    then show ?thesis using f by (simp add: rne_def)
  qed
qed

lemma floor_log2_eqI:
  assumes "2 powi e \<le> x" "x < 2 powi (e + 1)"
  shows "\<lfloor>log 2 x\<rfloor> = e"
proof -
  have pos: "0 < x" using assms(1) by (smt (verit) zero_less_power_int)
  have "(2::real) powr real_of_int e = 2 powi e"
      "(2::real) powr (real_of_int e + 1) = 2 powi (e + 1)"
    using powr_real_of_int'[of "2::real" e] powr_real_of_int'[of "2::real" "e + 1"] by simp_all
  then show ?thesis using assms pos by (simp add: floor_log_eq_powr_iff)
qed

text \<open>
  The value of \<open>rnd\<close> at a real \<open>x\<close> between \<open>2\<^sup>e\<close> and \<open>2\<^sup>e\<^sup>+\<^sup>1\<close>, in the normal range:
  the multiple \<open>m\<close> of the unit in the last place that is less than half a unit away.
\<close>

lemma rnd_val:
  assumes lo: "2 powi e \<le> \<bar>x\<bar>" and hi: "\<bar>x\<bar> < 2 powi (e + 1)"
    and e: "- 1022 \<le> e" "e \<le> 1022"
    and below: "(of_int m - 1 / 2) * 2 powi (e - 52) < x"
    and above: "x < (of_int m + 1 / 2) * 2 powi (e - 52)"
  shows "rnd x = Fin (of_int m * 2 powi (e - 52))"
proof -
  let ?u = "(2::real) powi (e - 52)"
  have upos: "0 < ?u" by simp
  have x0: "x \<noteq> 0" using lo by (smt (verit) zero_less_power_int abs_zero)
  have "\<lfloor>log 2 \<bar>x\<bar>\<rfloor> = e" using lo hi by (rule floor_log2_eqI)
  then have ue: "ulp_exp x = e - 52" using e by (simp add: ulp_exp_def)
  have "of_int m - 1 / 2 < x / ?u" "x / ?u < of_int m + 1 / 2"
    using below above upos by (simp_all add: pos_less_divide_eq pos_divide_less_eq)
  then have m: "\<bar>x / ?u - of_int m\<bar> < 1 / 2" by linarith
  then have r: "rne (x / ?u) = m" by (rule rne_eqI)
  have split: "(2::real) powi (e + 1) = 2 ^ 53 * ?u"
    using power_int_add[of "2::real" 53 "e - 52"] by (simp add: add.commute)
  have "\<bar>x\<bar> / ?u < 2 ^ 53"
    using hi upos by (simp add: split pos_divide_less_eq)
  then have "\<bar>x / ?u\<bar> < 2 ^ 53" using upos by simp
  then have "\<bar>real_of_int m\<bar> < 2 ^ 53 + 1" using m by linarith
  then have "real_of_int \<bar>m\<bar> < real_of_int (2 ^ 53 + 1)" by simp
  then have "\<bar>m\<bar> < 2 ^ 53 + 1" by (simp only: of_int_less_iff)
  then have "\<bar>m\<bar> \<le> 2 ^ 53" by simp
  then have "real_of_int \<bar>m\<bar> \<le> real_of_int (2 ^ 53)" by (simp only: of_int_le_iff)
  then have "\<bar>real_of_int m\<bar> \<le> 2 ^ 53" by simp
  then have "\<bar>of_int m * ?u\<bar> \<le> 2 ^ 53 * ?u"
    using upos by (simp add: abs_mult)
  also have "\<dots> = 2 powi (e + 1)" by (simp add: split)
  also have "\<dots> \<le> 2 powi 1023" using e by (intro power_int_increasing) auto
  also have "\<dots> < (2::real) ^ 1024" by simp
  finally have "\<not> 2 ^ 1024 \<le> \<bar>of_int m * ?u\<bar>" by simp
  then show ?thesis using x0 ue r by (simp add: rnd_def Let_def)
qed

text \<open>Small integers and one half are doubles: rounding leaves them as they are.\<close>

lemma rnd_0: "rnd 0 = Fin 0"
  by (simp add: rnd_def)

lemma rnd_1: "rnd 1 = Fin 1"
proof -
  have "rnd 1 = Fin (of_int (2 ^ 52) * 2 powi (0 - 52))"
    by (rule rnd_val) (simp_all add: power_int_minus field_simps)
  then show ?thesis by (simp add: power_int_minus field_simps)
qed

lemma rnd_minus_1: "rnd (- 1) = Fin (- 1)"
proof -
  have "rnd (- 1) = Fin (of_int (- (2 ^ 52)) * 2 powi (0 - 52))"
    by (rule rnd_val) (simp_all add: power_int_minus field_simps)
  then show ?thesis by (simp add: power_int_minus field_simps)
qed

lemma rnd_2: "rnd 2 = Fin 2"
proof -
  have "rnd 2 = Fin (of_int (2 ^ 52) * 2 powi (1 - 52))"
    by (rule rnd_val) (simp_all add: power_int_minus field_simps)
  then show ?thesis by (simp add: power_int_minus field_simps)
qed

lemma rnd_3: "rnd 3 = Fin 3"
proof -
  have "rnd 3 = Fin (of_int (3 * 2 ^ 51) * 2 powi (1 - 52))"
    by (rule rnd_val) (simp_all add: power_int_minus field_simps)
  then show ?thesis by (simp add: power_int_minus field_simps)
qed

lemma rnd_9: "rnd 9 = Fin 9"
proof -
  have "rnd 9 = Fin (of_int (9 * 2 ^ 49) * 2 powi (3 - 52))"
    by (rule rnd_val) (simp_all add: power_int_minus field_simps)
  then show ?thesis by (simp add: power_int_minus field_simps)
qed

lemma rnd_18: "rnd 18 = Fin 18"
proof -
  have "rnd 18 = Fin (of_int (9 * 2 ^ 49) * 2 powi (4 - 52))"
    by (rule rnd_val) (simp_all add: power_int_minus field_simps)
  then show ?thesis by (simp add: power_int_minus field_simps)
qed

lemma rnd_half: "rnd (1 / 2) = Fin (1 / 2)"
proof -
  have "rnd (1 / 2) = Fin (of_int (2 ^ 52) * 2 powi (- 1 - 52))"
    by (rule rnd_val) (simp_all add: power_int_minus field_simps)
  then show ?thesis by (simp add: power_int_minus field_simps)
qed

text \<open>The roundings that are not exact.\<close>

lemma rnd_sqrt_2: "rnd (sqrt 2) = Fin d_sqrt2"
proof -
  have lo: "(6369051672525773 - 1 / 2) / 2 ^ 52 < sqrt 2"
    by (rule real_less_rsqrt) (simp add: power2_eq_square)
  have hi: "sqrt 2 < (6369051672525773 + 1 / 2) / 2 ^ 52"
    by (rule real_less_lsqrt) (simp_all add: power2_eq_square)
  have "rnd (sqrt 2) = Fin (of_int 6369051672525773 * 2 powi (0 - 52))"
  proof (rule rnd_val)
    show "2 powi 0 \<le> \<bar>sqrt 2\<bar>" by simp
    show "\<bar>sqrt 2\<bar> < 2 powi (0 + 1)" using hi by simp
    show "(real_of_int 6369051672525773 - 1 / 2) * 2 powi (0 - 52) < sqrt 2"
      using lo by (simp add: power_int_minus field_simps)
    show "sqrt 2 < (real_of_int 6369051672525773 + 1 / 2) * 2 powi (0 - 52)"
      using hi by (simp add: power_int_minus field_simps)
  qed simp_all
  then show ?thesis by (simp add: d_sqrt2_def power_int_minus field_simps)
qed

lemma rnd_sqrt_18: "rnd (sqrt 18) = Fin d_sqrt18"
proof -
  have lo: "(4776788754394329 - 1 / 2) / 2 ^ 50 < sqrt 18"
    by (rule real_less_rsqrt) (simp add: power2_eq_square)
  have hi: "sqrt 18 < (4776788754394329 + 1 / 2) / 2 ^ 50"
    by (rule real_less_lsqrt) (simp_all add: power2_eq_square)
  have four: "4 \<le> sqrt 18" by (rule real_le_rsqrt) simp
  have "rnd (sqrt 18) = Fin (of_int 4776788754394329 * 2 powi (2 - 52))"
  proof (rule rnd_val)
    show "2 powi 2 \<le> \<bar>sqrt 18\<bar>" using four by simp
    show "\<bar>sqrt 18\<bar> < 2 powi (2 + 1)" using hi by simp
    show "(real_of_int 4776788754394329 - 1 / 2) * 2 powi (2 - 52) < sqrt 18"
      using lo by (simp add: power_int_minus field_simps)
    show "sqrt 18 < (real_of_int 4776788754394329 + 1 / 2) * 2 powi (2 - 52)"
      using hi by (simp add: power_int_minus field_simps)
  qed simp_all
  then show ?thesis by (simp add: d_sqrt18_def power_int_minus field_simps)
qed

lemma rnd_inv_sqrt2: "rnd (1 / d_sqrt2) = Fin d_inv_sqrt2"
proof -
  have "rnd (1 / d_sqrt2) = Fin (of_int 6369051672525772 * 2 powi (- 1 - 52))"
    by (rule rnd_val) (simp_all add: d_sqrt2_def power_int_minus field_simps)
  then show ?thesis by (simp add: d_inv_sqrt2_def power_int_minus field_simps)
qed

lemma rnd_3_by_sqrt18: "rnd (3 / d_sqrt18) = Fin d_3_by_sqrt18"
proof -
  have "rnd (3 / d_sqrt18) = Fin (of_int 6369051672525773 * 2 powi (- 1 - 52))"
    by (rule rnd_val) (simp_all add: d_sqrt18_def power_int_minus field_simps)
  then show ?thesis by (simp add: d_3_by_sqrt18_def power_int_minus field_simps)
qed

text \<open>
  The two products: \<open>0.7071067811865475 * 0.7071067811865476\<close> rounds up to one
  half, \<open>0.7071067811865475 * 0.7071067811865475\<close> rounds to the double below it.
\<close>

lemma rnd_product_half: "rnd (d_inv_sqrt2 * d_3_by_sqrt18) = Fin (1 / 2)"
proof -
  have "rnd (d_inv_sqrt2 * d_3_by_sqrt18) = Fin (of_int (2 ^ 53) * 2 powi (- 2 - 52))"
    by (rule rnd_val)
      (simp_all add: d_inv_sqrt2_def d_3_by_sqrt18_def power_int_minus field_simps)
  then show ?thesis by (simp add: power_int_minus field_simps)
qed

lemma rnd_product_below_half: "rnd (d_inv_sqrt2 * d_inv_sqrt2) = Fin d_below_half"
proof -
  have "rnd (d_inv_sqrt2 * d_inv_sqrt2) = Fin (of_int (2 ^ 53 - 2) * 2 powi (- 2 - 52))"
    by (rule rnd_val) (simp_all add: d_inv_sqrt2_def power_int_minus field_simps)
  then show ?thesis by (simp add: d_below_half_def power_int_minus field_simps)
qed

lemma rnd_below_half: "rnd d_below_half = Fin d_below_half"
proof -
  have "rnd d_below_half = Fin (of_int (2 ^ 53 - 2) * 2 powi (- 2 - 52))"
    by (rule rnd_val) (simp_all add: d_below_half_def power_int_minus field_simps)
  then show ?thesis by (simp add: d_below_half_def power_int_minus field_simps)
qed

lemma d_nonzero: "d_sqrt2 \<noteq> 0" "d_sqrt18 \<noteq> 0"
  by (simp_all add: d_sqrt2_def d_sqrt18_def)

lemmas rnd_eval =
  rnd_0 rnd_1 rnd_minus_1 rnd_2 rnd_3 rnd_9 rnd_18 rnd_half rnd_sqrt_2 rnd_sqrt_18
  rnd_inv_sqrt2 rnd_3_by_sqrt18 rnd_product_half rnd_product_below_half rnd_below_half
  d_nonzero

subsection \<open>The cosines of the concrete inputs\<close>

text \<open>In the IEEE arithmetic the anchor of \<open>anchored_at a\<close> seen from the origin is \<open>a\<close>.\<close>

lemma normalize_axes:
  "normalize (vec 1 0 0) = vec 1 0 0"
  "normalize (vec 0 1 0) = vec 0 1 0"
  "normalize (vec (- 1) 0 0) = vec (- 1) 0 0"
  by (simp_all add: normalize_def squaredNorm_def vec_def rnd_eval)

lemma normalize_diagonals:
  "normalize (vec 1 1 0) = vec d_inv_sqrt2 d_inv_sqrt2 0"
  "normalize (vec 1 0 1) = vec d_inv_sqrt2 0 d_inv_sqrt2"
  "normalize (vec 3 0 3) = vec d_3_by_sqrt18 0 d_3_by_sqrt18"
  by (simp_all add: normalize_def squaredNorm_def vec_def rnd_eval)

lemma view_cos_anchored:
  assumes "rnd x = Fin x" "rnd y = Fin y" "rnd z = Fin z"
    and "rnd q1 = Fin q1" "rnd q2 = Fin q2" "rnd q3 = Fin q3"
  shows "view_cos ieee_arith (point_at_origin ps r) (vec q1 q2 q3) (anchored_at (x, y, z) s)
           = dot (normalize (vec q1 q2 q3)) (normalize (vec x y z))"
  using assms
  by (simp add: view_cos_def cos_angle_of_def ieee_arith_def SE3_inverse_def anchored_at_def
      point_at_origin_def vec_def fsub_def rnd_0)

lemma view_cos_axes:
  "view_cos ieee_arith (point_at_origin ps r) (vec 1 0 0) (anchored_at (- 1, 0, 0) s) = Fin (- 1)"
  "view_cos ieee_arith (point_at_origin ps r) (vec 1 0 0) (anchored_at (0, 1, 0) s) = Fin 0"
  by (simp_all add: view_cos_anchored rnd_eval normalize_axes) (simp_all add: vec_def rnd_eval)

lemma view_cos_sixty:
  "view_cos ieee_arith (point_at_origin ps r) (vec 1 1 0) (anchored_at (3, 0, 3) s) = Fin (1 / 2)"
  "view_cos ieee_arith (point_at_origin ps r) (vec 1 1 0) (anchored_at (1, 0, 1) s) = Fin d_below_half"
  by (simp_all add: view_cos_anchored rnd_eval normalize_diagonals) (simp_all add: vec_def rnd_eval)

text \<open>
  C1 in IEEE doubles, with the query position \<open>(1, 1, 0)\<close> and two observations in the
  same direction, anchored at \<open>(1, 0, 1)\<close> and at \<open>(3, 0, 3)\<close>: the computed cosines are
  \<open>0.4999999999999999\<close> and one half, so the second observation is selected and
  reported as found. With no observation the call reports not found.
\<close>

theorem getCloseViewObs_selection_witness:
  "map sixty_degrees_twice (obs (point_at_origin [11, 12] nullptr))
     = map Some [anchored_at (1, 0, 1) 0, anchored_at (3, 0, 3) 0]
   \<and> view_cos ieee_arith (point_at_origin [11, 12] nullptr) (vec 1 1 0)
        (anchored_at (1, 0, 1) 0) = Fin d_below_half
   \<and> view_cos ieee_arith (point_at_origin [11, 12] nullptr) (vec 1 1 0)
        (anchored_at (3, 0, 3) 0) = Fin (1 / 2)
   \<and> getCloseViewObs ieee_arith sixty_degrees_twice (point_at_origin [11, 12] nullptr)
        (vec 1 1 0) nullptr (Fin 0, Fin 0)
       = Some (True, 12)
   \<and> getCloseViewObs ieee_arith sixty_degrees_twice (point_at_origin [] nullptr)
        (vec 1 1 0) 7 (Fin 0, Fin 0)
       = Some (False, 7)"
proof -
  let ?vp = "point_at_origin [11, 12] nullptr"
  let ?fs = "[anchored_at (1, 0, 1) 0, anchored_at (3, 0, 3) 0]"
  let ?cos = "view_cos ieee_arith ?vp (vec 1 1 0)"
  have o: "obs ?vp = [11, 12]" by (simp add: point_at_origin_def)
  have m: "map sixty_degrees_twice (obs ?vp) = map Some ?fs"
    by (simp add: o sixty_degrees_twice_def)
  have n: "obs ?vp \<noteq> []" by (simp add: o)
  have c: "?cos (anchored_at (1, 0, 1) 0) = Fin d_below_half"
      "?cos (anchored_at (3, 0, 3) 0) = Fin (1 / 2)"
    by (simp_all add: view_cos_sixty)
  have lt: "d_below_half < 1 / 2" by (simp add: d_below_half_def)
  from getCloseViewObs_selection[OF m, of ieee_arith "vec 1 1 0" nullptr "(Fin 0, Fin 0)"] n
  obtain found i where sel: "i < length (obs ?vp)"
      "getCloseViewObs ieee_arith sixty_degrees_twice ?vp (vec 1 1 0) nullptr (Fin 0, Fin 0)
         = Some (found, obs ?vp ! i)"
      "found \<longleftrightarrow> (\<exists>f\<in>set ?fs. dle (Fin (1 / 2)) (?cos f))"
      "found \<longrightarrow> (\<forall>f\<in>set ?fs. \<not> dless (?cos (?fs ! i)) (?cos f))"
    by blast
  have f: "found" using sel(3) c by simp
  from sel(1) o consider "i = 0" | "i = 1" by fastforce
  then have "i = 1"
  proof cases
    case 1
    then have "\<not> dless (?cos (?fs ! 0)) (?cos (anchored_at (3, 0, 3) 0))"
      using sel(4) f by simp
    then show ?thesis using c lt by simp
  next
    case 2
    then show ?thesis .
  qed
  then have r: "getCloseViewObs ieee_arith sixty_degrees_twice ?vp (vec 1 1 0) nullptr (Fin 0, Fin 0)
      = Some (True, 12)"
    using sel(2) f o by simp
  have e: "obs (point_at_origin [] nullptr) = []" by (simp add: point_at_origin_def)
  have em: "map sixty_degrees_twice (obs (point_at_origin [] nullptr)) = map Some []"
    by (simp add: e)
  have "getCloseViewObs ieee_arith sixty_degrees_twice (point_at_origin [] nullptr)
      (vec 1 1 0) 7 (Fin 0, Fin 0) = Some (False, 7)"
    using getCloseViewObs_selection[OF em, of ieee_arith "vec 1 1 0" 7 "(Fin 0, Fin 0)"] e
    by simp
  then show ?thesis using m c r by simp
qed

text \<open>
  With one observation the loop makes one round: the flag says whether the cosine
  computed for that observation is at least one half.
\<close>

lemma getCloseViewObs_one:
  assumes "obs vp = [p]" and "h p = Some f"
  shows "getCloseViewObs ar h vp framepos ftr cur_px
           = Some (dle (Fin (1 / 2)) (view_cos ar vp framepos f), p)"
proof -
  let ?d = "normalized3 ar (minus3 ar framepos (pos vp))"
  let ?c = "view_cos ar vp framepos f"
  have c: "cos_angle_of ar (pos vp) ?d f = ?c" by (simp add: view_cos_def)
  have loop: "close_view_loop ar h (pos vp) ?d [p] 0 (0, Fin 0)
      = Some (if dless (Fin 0) ?c then (0, ?c) else (0, Fin 0))"
    using assms(2) c by (simp add: Let_def)
  have res: "getCloseViewObs ar h vp framepos ftr cur_px =
      Some (\<not> dless (if dless (Fin 0) ?c then ?c else Fin 0) (Fin (1 / 2)), p)"
    using assms(1) loop by (simp add: getCloseViewObs_def deref_it_def)
  have "(\<not> dless (if dless (Fin 0) ?c then ?c else Fin 0) (Fin (1 / 2))) = dle (Fin (1 / 2)) ?c"
    by (cases ?c) auto
  then show ?thesis using res by simp
qed

text \<open>
  C2, as stated, fails: with the point at the origin, the query position \<open>(1, 1, 0)\<close>
  and one observation anchored at \<open>(3, 0, 3)\<close>, the cosine computed in IEEE doubles is
  one half exactly, and \<open>getCloseViewObs\<close> reports found: the test is
  \<open>min_cos_angle < 0.5\<close>.
\<close>

theorem getCloseViewObs_half_is_found:
  "obs (point_at_origin [11] nullptr) = [11]
   \<and> sixty_degrees 11 = Some (anchored_at (3, 0, 3) 0)
   \<and> view_cos ieee_arith (point_at_origin [11] nullptr) (vec 1 1 0) (anchored_at (3, 0, 3) 0)
       = Fin (1 / 2)
   \<and> getCloseViewObs ieee_arith sixty_degrees (point_at_origin [11] nullptr) (vec 1 1 0)
        nullptr (Fin 0, Fin 0)
       = Some (True, 11)"
proof -
  have a: "obs (point_at_origin [11] nullptr) = [11]" by (simp add: point_at_origin_def)
  have b: "sixty_degrees 11 = Some (anchored_at (3, 0, 3) 0)" by (simp add: sixty_degrees_def)
  show ?thesis
    using getCloseViewObs_one[of "point_at_origin [11] nullptr" 11 sixty_degrees
        "anchored_at (3, 0, 3) 0" ieee_arith "vec 1 1 0" nullptr "(Fin 0, Fin 0)", OF a b] a b
    by (simp add: view_cos_sixty)
qed

text \<open>
  C2, amended: in any arithmetic, for a point with one observation, pointing to a live
  feature, \<open>getCloseViewObs\<close> writes that observation and reports found exactly when
  the cosine it computes is at least one half; at a cosine of one half exactly it
  reports found (not found needs a cosine below one half, or a NaN).
\<close>

theorem getCloseViewObs_single:
  assumes "obs vp = [p]" and "h p = Some f"
  shows "getCloseViewObs ar h vp framepos ftr cur_px
           = Some (dle (Fin (1 / 2)) (view_cos ar vp framepos f), p)
       \<and> (view_cos ar vp framepos f = Fin (1 / 2) \<longrightarrow>
            getCloseViewObs ar h vp framepos ftr cur_px = Some (True, p))"
proof -
  have r: "getCloseViewObs ar h vp framepos ftr cur_px
      = Some (dle (Fin (1 / 2)) (view_cos ar vp framepos f), p)"
    using assms by (rule getCloseViewObs_one)
  moreover have "getCloseViewObs ar h vp framepos ftr cur_px = Some (True, p)"
    if "view_cos ar vp framepos f = Fin (1 / 2)"
    using r that by simp
  ultimately show ?thesis by blast
qed

text \<open>
  The amended C2 in IEEE doubles, with the query position \<open>(1, 1, 0)\<close>: the observation
  anchored at \<open>(3, 0, 3)\<close> has the computed cosine one half and is found; the one
  anchored at \<open>(1, 0, 1)\<close>, in the same direction, has the computed cosine
  \<open>0.4999999999999999\<close> and is not.
\<close>

theorem getCloseViewObs_single_witness:
  "obs (point_at_origin [11] nullptr) = [11]
   \<and> sixty_degrees 11 = Some (anchored_at (3, 0, 3) 0)
   \<and> sixty_degrees_near 11 = Some (anchored_at (1, 0, 1) 0)
   \<and> view_cos ieee_arith (point_at_origin [11] nullptr) (vec 1 1 0) (anchored_at (3, 0, 3) 0)
       = Fin (1 / 2)
   \<and> view_cos ieee_arith (point_at_origin [11] nullptr) (vec 1 1 0) (anchored_at (1, 0, 1) 0)
       = Fin d_below_half
   \<and> getCloseViewObs ieee_arith sixty_degrees (point_at_origin [11] nullptr) (vec 1 1 0)
        7 (Fin 0, Fin 0)
       = Some (True, 11)
   \<and> getCloseViewObs ieee_arith sixty_degrees_near (point_at_origin [11] nullptr) (vec 1 1 0)
        7 (Fin 0, Fin 0)
       = Some (False, 11)"
proof -
  let ?vp = "point_at_origin [11] nullptr"
  have a: "obs ?vp = [11]" by (simp add: point_at_origin_def)
  have b: "sixty_degrees 11 = Some (anchored_at (3, 0, 3) 0)" by (simp add: sixty_degrees_def)
  have c: "sixty_degrees_near 11 = Some (anchored_at (1, 0, 1) 0)"
    by (simp add: sixty_degrees_near_def)
  have lt: "d_below_half < 1 / 2" by (simp add: d_below_half_def)
  have "getCloseViewObs ieee_arith sixty_degrees ?vp (vec 1 1 0) 7 (Fin 0, Fin 0) = Some (True, 11)"
    using getCloseViewObs_single[of ?vp 11 sixty_degrees "anchored_at (3, 0, 3) 0" ieee_arith
        "vec 1 1 0" 7 "(Fin 0, Fin 0)", OF a b]
    by (simp add: view_cos_sixty)
  moreover have "getCloseViewObs ieee_arith sixty_degrees_near ?vp (vec 1 1 0) 7 (Fin 0, Fin 0)
      = Some (False, 11)"
    using getCloseViewObs_single[of ?vp 11 sixty_degrees_near "anchored_at (1, 0, 1) 0" ieee_arith
        "vec 1 1 0" 7 "(Fin 0, Fin 0)", OF a c] lt
    by (simp add: view_cos_sixty)
  ultimately show ?thesis using a b c by (simp add: view_cos_sixty)
qed

text \<open>
  C10: in any arithmetic, for a point with a non-empty list of live observations,
  \<open>getCloseViewObs\<close> returns with an element of the list written to \<open>ftr\<close>, whatever
  the flag; when no observation has a positive cosine (each computed cosine is at most
  0, or a NaN), it reports not found and the element written is the first of the list
  (the one added last), whichever observation has the largest cosine.
\<close>

theorem getCloseViewObs_writes_observation:
  assumes "map h (obs vp) = map Some fs" and "obs vp \<noteq> []"
  shows "\<exists>found p. getCloseViewObs ar h vp framepos ftr cur_px = Some (found, p)
           \<and> p \<in> set (obs vp)
           \<and> ((\<forall>f\<in>set fs. \<not> dless (Fin 0) (view_cos ar vp framepos f))
                \<longrightarrow> \<not> found \<and> p = hd (obs vp))"
proof -
  let ?cos = "view_cos ar vp framepos"
  from getCloseViewObs_cases[OF assms, of ar framepos ftr cur_px]
  obtain i where i: "i < length (obs vp)"
      "getCloseViewObs ar h vp framepos ftr cur_px =
         Some (\<exists>f\<in>set fs. dle (Fin (1 / 2)) (?cos f), obs vp ! i)"
      "(\<forall>f\<in>set fs. \<not> dless (Fin 0) (?cos f)) \<longrightarrow> i = 0"
    by blast
  have "dless (Fin 0) (Fin (1 / 2))" by simp
  then have "(\<forall>f\<in>set fs. \<not> dless (Fin 0) (?cos f))
      \<longrightarrow> \<not> (\<exists>f\<in>set fs. dle (Fin (1 / 2)) (?cos f))"
    using dless_dle_trans by blast
  then show ?thesis using i assms(2) by (auto simp: hd_conv_nth)
qed

text \<open>
  C10 in IEEE doubles at two observations with the computed cosines \<open>- 1\<close> and \<open>0\<close>:
  the first one is written, although the second has the larger cosine.
\<close>

theorem getCloseViewObs_writes_observation_witness:
  "map behind_and_side (obs (point_at_origin [11, 12] nullptr))
     = map Some [anchored_at (- 1, 0, 0) 0, anchored_at (0, 1, 0) 0]
   \<and> obs (point_at_origin [11, 12] nullptr) \<noteq> []
   \<and> view_cos ieee_arith (point_at_origin [11, 12] nullptr) (vec 1 0 0)
        (anchored_at (- 1, 0, 0) 0) = Fin (- 1)
   \<and> view_cos ieee_arith (point_at_origin [11, 12] nullptr) (vec 1 0 0)
        (anchored_at (0, 1, 0) 0) = Fin 0
   \<and> getCloseViewObs ieee_arith behind_and_side (point_at_origin [11, 12] nullptr) (vec 1 0 0)
        7 (Fin 0, Fin 0)
       = Some (False, 11)"
proof -
  let ?vp = "point_at_origin [11, 12] nullptr"
  let ?fs = "[anchored_at (- 1, 0, 0) 0, anchored_at (0, 1, 0) 0]"
  have o: "obs ?vp = [11, 12]" by (simp add: point_at_origin_def)
  have m: "map behind_and_side (obs ?vp) = map Some ?fs"
    by (simp add: o behind_and_side_def)
  have n: "obs ?vp \<noteq> []" by (simp add: o)
  have c: "view_cos ieee_arith ?vp (vec 1 0 0) (anchored_at (- 1, 0, 0) 0) = Fin (- 1)"
      "view_cos ieee_arith ?vp (vec 1 0 0) (anchored_at (0, 1, 0) 0) = Fin 0"
    by (simp_all add: view_cos_axes)
  from getCloseViewObs_writes_observation[OF m n, of ieee_arith "vec 1 0 0" 7 "(Fin 0, Fin 0)"]
  have "getCloseViewObs ieee_arith behind_and_side ?vp (vec 1 0 0) 7 (Fin 0, Fin 0)
      = Some (False, 11)"
    using c o by auto
  then show ?thesis using m n c by simp
qed

subsection \<open>Computed cosines against exact ones\<close>

text \<open>The roundings of the observations at a right angle.\<close>

lemma rnd_small_integers:
  "rnd 6 = Fin 6" "rnd (- 6) = Fin (- 6)" "rnd 10 = Fin 10" "rnd 36 = Fin 36" "rnd 46 = Fin 46"
proof -
  have "rnd 6 = Fin (of_int (3 * 2 ^ 51) * 2 powi (2 - 52))"
    by (rule rnd_val) (simp_all add: power_int_minus field_simps)
  then show "rnd 6 = Fin 6" by (simp add: power_int_minus field_simps)
  have "rnd (- 6) = Fin (of_int (- (3 * 2 ^ 51)) * 2 powi (2 - 52))"
    by (rule rnd_val) (simp_all add: power_int_minus field_simps)
  then show "rnd (- 6) = Fin (- 6)" by (simp add: power_int_minus field_simps)
  have "rnd 10 = Fin (of_int (5 * 2 ^ 50) * 2 powi (3 - 52))"
    by (rule rnd_val) (simp_all add: power_int_minus field_simps)
  then show "rnd 10 = Fin 10" by (simp add: power_int_minus field_simps)
  have "rnd 36 = Fin (of_int (9 * 2 ^ 49) * 2 powi (5 - 52))"
    by (rule rnd_val) (simp_all add: power_int_minus field_simps)
  then show "rnd 36 = Fin 36" by (simp add: power_int_minus field_simps)
  have "rnd 46 = Fin (of_int (23 * 2 ^ 48) * 2 powi (5 - 52))"
    by (rule rnd_val) (simp_all add: power_int_minus field_simps)
  then show "rnd 46 = Fin 46" by (simp add: power_int_minus field_simps)
qed

lemma rnd_sqrt_10: "rnd (sqrt 10) = Fin d_sqrt10"
proof -
  have lo: "(7120816245988179 - 1 / 2) / 2 ^ 51 < sqrt 10"
    by (rule real_less_rsqrt) (simp add: power2_eq_square)
  have hi: "sqrt 10 < (7120816245988179 + 1 / 2) / 2 ^ 51"
    by (rule real_less_lsqrt) (simp_all add: power2_eq_square)
  have two: "2 \<le> sqrt 10" by (rule real_le_rsqrt) simp
  have "rnd (sqrt 10) = Fin (of_int 7120816245988179 * 2 powi (1 - 52))"
  proof (rule rnd_val)
    show "2 powi 1 \<le> \<bar>sqrt 10\<bar>" using two by simp
    show "\<bar>sqrt 10\<bar> < 2 powi (1 + 1)" using hi by simp
    show "(real_of_int 7120816245988179 - 1 / 2) * 2 powi (1 - 52) < sqrt 10"
      using lo by (simp add: power_int_minus field_simps)
    show "sqrt 10 < (real_of_int 7120816245988179 + 1 / 2) * 2 powi (1 - 52)"
      using hi by (simp add: power_int_minus field_simps)
  qed simp_all
  then show ?thesis by (simp add: d_sqrt10_def power_int_minus field_simps)
qed

lemma rnd_sqrt_46: "rnd (sqrt 46) = Fin d_sqrt46"
proof -
  have lo: "(7636224696176675 - 1 / 2) / 2 ^ 50 < sqrt 46"
    by (rule real_less_rsqrt) (simp add: power2_eq_square)
  have hi: "sqrt 46 < (7636224696176675 + 1 / 2) / 2 ^ 50"
    by (rule real_less_lsqrt) (simp_all add: power2_eq_square)
  have four: "4 \<le> sqrt 46" by (rule real_le_rsqrt) simp
  have "rnd (sqrt 46) = Fin (of_int 7636224696176675 * 2 powi (2 - 52))"
  proof (rule rnd_val)
    show "2 powi 2 \<le> \<bar>sqrt 46\<bar>" using four by simp
    show "\<bar>sqrt 46\<bar> < 2 powi (2 + 1)" using hi by simp
    show "(real_of_int 7636224696176675 - 1 / 2) * 2 powi (2 - 52) < sqrt 46"
      using lo by (simp add: power_int_minus field_simps)
    show "sqrt 46 < (real_of_int 7636224696176675 + 1 / 2) * 2 powi (2 - 52)"
      using hi by (simp add: power_int_minus field_simps)
  qed simp_all
  then show ?thesis by (simp add: d_sqrt46_def power_int_minus field_simps)
qed

lemma rnd_quotients_sqrt10:
  "rnd (1 / d_sqrt10) = Fin d_1_by_sqrt10" "rnd (3 / d_sqrt10) = Fin d_3_by_sqrt10"
proof -
  have "rnd (1 / d_sqrt10) = Fin (of_int 5696652996790543 * 2 powi (- 2 - 52))"
    by (rule rnd_val) (simp_all add: d_sqrt10_def power_int_minus field_simps)
  then show "rnd (1 / d_sqrt10) = Fin d_1_by_sqrt10"
    by (simp add: d_1_by_sqrt10_def power_int_minus field_simps)
  have "rnd (3 / d_sqrt10) = Fin (of_int 8544979495185814 * 2 powi (- 1 - 52))"
    by (rule rnd_val) (simp_all add: d_sqrt10_def power_int_minus field_simps)
  then show "rnd (3 / d_sqrt10) = Fin d_3_by_sqrt10"
    by (simp add: d_3_by_sqrt10_def power_int_minus field_simps)
qed

lemma rnd_quotients_sqrt46:
  "rnd (- (6 / d_sqrt46)) = Fin (- d_6_by_sqrt46)" "rnd (3 / d_sqrt46) = Fin d_3_by_sqrt46"
  "rnd (- (1 / d_sqrt46)) = Fin (- d_1_by_sqrt46)"
proof -
  have "rnd (- (6 / d_sqrt46)) = Fin (of_int (- 7968234465575661) * 2 powi (- 1 - 52))"
    by (rule rnd_val) (simp_all add: d_sqrt46_def power_int_minus field_simps)
  then show "rnd (- (6 / d_sqrt46)) = Fin (- d_6_by_sqrt46)"
    by (simp add: d_6_by_sqrt46_def power_int_minus field_simps)
  have "rnd (3 / d_sqrt46) = Fin (of_int 7968234465575661 * 2 powi (- 2 - 52))"
    by (rule rnd_val) (simp_all add: d_sqrt46_def power_int_minus field_simps)
  then show "rnd (3 / d_sqrt46) = Fin d_3_by_sqrt46"
    by (simp add: d_3_by_sqrt46_def power_int_minus field_simps)
  have "rnd (- (1 / d_sqrt46)) = Fin (of_int (- 5312156310383774) * 2 powi (- 3 - 52))"
    by (rule rnd_val) (simp_all add: d_sqrt46_def power_int_minus field_simps)
  then show "rnd (- (1 / d_sqrt46)) = Fin (- d_1_by_sqrt46)"
    by (simp add: d_1_by_sqrt46_def power_int_minus field_simps)
qed

lemma rnd_products_right_angle:
  "rnd (d_1_by_sqrt10 * d_3_by_sqrt46) = Fin d_product_1"
  "rnd (- (d_3_by_sqrt10 * d_1_by_sqrt46)) = Fin (- d_product_2)"
proof -
  have "rnd (d_1_by_sqrt10 * d_3_by_sqrt46) = Fin (of_int 5039553968294728 * 2 powi (- 3 - 52))"
    by (rule rnd_val)
      (simp_all add: d_1_by_sqrt10_def d_3_by_sqrt46_def power_int_minus field_simps)
  then show "rnd (d_1_by_sqrt10 * d_3_by_sqrt46) = Fin d_product_1"
    by (simp add: d_product_1_def power_int_minus field_simps)
  have "rnd (- (d_3_by_sqrt10 * d_1_by_sqrt46))
      = Fin (of_int (- 5039553968294727) * 2 powi (- 3 - 52))"
    by (rule rnd_val)
      (simp_all add: d_3_by_sqrt10_def d_1_by_sqrt46_def power_int_minus field_simps)
  then show "rnd (- (d_3_by_sqrt10 * d_1_by_sqrt46)) = Fin (- d_product_2)"
    by (simp add: d_product_2_def power_int_minus field_simps)
qed

lemma rnd_sum_right_angle:
  "d_product_1 - d_product_2 = 1 / 2 ^ 55" "rnd (1 / 2 ^ 55) = Fin (1 / 2 ^ 55)"
proof -
  show "d_product_1 - d_product_2 = 1 / 2 ^ 55"
    by (simp add: d_product_1_def d_product_2_def)
  have "rnd (1 / 2 ^ 55) = Fin (of_int (2 ^ 52) * 2 powi (- 55 - 52))"
    by (rule rnd_val) (simp_all add: power_int_minus field_simps)
  then show "rnd (1 / 2 ^ 55) = Fin (1 / 2 ^ 55)" by (simp add: power_int_minus field_simps)
qed

lemma d_nonzero_right_angle: "d_sqrt10 \<noteq> 0" "d_sqrt46 \<noteq> 0"
  by (simp_all add: d_sqrt10_def d_sqrt46_def)

lemmas rnd_eval_right_angle =
  rnd_small_integers rnd_sqrt_10 rnd_sqrt_46 rnd_quotients_sqrt10 rnd_quotients_sqrt46
  rnd_products_right_angle rnd_sum_right_angle d_nonzero_right_angle

lemma normalize_right_angle:
  "normalize (vec 0 1 3) = vec 0 d_1_by_sqrt10 d_3_by_sqrt10"
  "normalize (vec (- 6) 3 (- 1)) = vec (- d_6_by_sqrt46) d_3_by_sqrt46 (- d_1_by_sqrt46)"
  by (simp_all add: normalize_def squaredNorm_def vec_def rnd_eval rnd_eval_right_angle)

lemma view_cos_right_angle:
  "view_cos ieee_arith (point_at_origin ps r) (vec 0 1 3) (anchored_at (1, 0, 0) s) = Fin 0"
  "view_cos ieee_arith (point_at_origin ps r) (vec 0 1 3) (anchored_at (- 6, 3, - 1) s)
     = Fin (1 / 2 ^ 55)"
proof -
  have r: "rnd (1 / 36028797018963968) = Fin (1 / 36028797018963968)"
    using rnd_sum_right_angle(2) by simp
  show "view_cos ieee_arith (point_at_origin ps r) (vec 0 1 3) (anchored_at (1, 0, 0) s) = Fin 0"
    by (simp add: view_cos_anchored rnd_eval normalize_right_angle normalize_axes)
      (simp add: vec_def rnd_eval)
  show "view_cos ieee_arith (point_at_origin ps r) (vec 0 1 3) (anchored_at (- 6, 3, - 1) s)
      = Fin (1 / 2 ^ 55)"
    by (simp add: view_cos_anchored rnd_eval rnd_eval_right_angle normalize_right_angle)
      (simp add: vec_def rnd_eval rnd_eval_right_angle r)
qed

text \<open>
  The cosines that decide are the computed ones: of two observations at a right
  angle to the query direction \<open>(0, 1, 3)\<close>, anchored at \<open>(1, 0, 0)\<close> and at
  \<open>(- 6, 3, - 1)\<close>, the first has the computed cosine zero and the second a computed
  cosine above zero, \<open>2\<^sup>-\<^sup>5\<^sup>5\<close>; the second one is written.
\<close>

lemma getCloseViewObs_right_angles:
  "getCloseViewObs ieee_arith right_angles (point_at_origin [11, 12] nullptr) (vec 0 1 3)
     7 (Fin 0, Fin 0) = Some (False, 12)"
proof -
  let ?vp = "point_at_origin [11, 12] nullptr"
  let ?d = "normalized3 ieee_arith (minus3 ieee_arith (vec 0 1 3) (pos ?vp))"
  have c: "cos_angle_of ieee_arith (pos ?vp) ?d (anchored_at (1, 0, 0) 0) = Fin 0"
      "cos_angle_of ieee_arith (pos ?vp) ?d (anchored_at (- 6, 3, - 1) 0) = Fin (1 / 2 ^ 55)"
    using view_cos_right_angle[of "[11, 12]" nullptr 0] by (simp_all add: view_cos_def)
  have o: "obs ?vp = [11, 12]" by (simp add: point_at_origin_def)
  have "close_view_loop ieee_arith right_angles (pos ?vp) ?d [11, 12] 0 (0, Fin 0)
      = Some (1, Fin (1 / 2 ^ 55))"
    using c by (simp add: right_angles_def Let_def)
  then show ?thesis
    using o by (simp add: getCloseViewObs_def deref_it_def)
qed

section \<open>Selection by score\<close>

lemma min_score_loop_total:
  "map h ps = map Some fs \<Longrightarrow> \<exists>r. min_score_loop h ps i acc = Some r"
proof (induction ps arbitrary: fs i acc)
  case Nil
  then show ?case by simp
next
  case (Cons p ps)
  then obtain f fs' where fs: "fs = f # fs'" "h p = Some f" "map h ps = map Some fs'"
    by (cases fs) auto
  obtain mi ms where acc: "acc = (mi, ms)" by (cases acc)
  show ?case using Cons.IH[OF fs(3)] fs(2) acc by simp
qed

lemma min_score_loop_spec:
  assumes "map h ps = map Some fs"
    and "min_score_loop h ps i (mi, ms) = Some (mi', ms')"
  shows "(mi' = mi \<and> ms' = ms \<and> (\<forall>f\<in>set fs. ms \<le> score f))
       \<or> (i \<le> mi' \<and> mi' < i + length fs \<and> ms' < ms
          \<and> score (fs ! (mi' - i)) = ms'
          \<and> (\<forall>j<mi' - i. ms' < score (fs ! j))
          \<and> (\<forall>f\<in>set fs. ms' \<le> score f))"
  using assms
proof (induction ps arbitrary: fs i mi ms)
  case Nil
  then show ?case by simp
next
  case (Cons p ps)
  then obtain f fs' where fs: "fs = f # fs'" "h p = Some f" "map h ps = map Some fs'"
    by (cases fs) auto
  show ?case
  proof (cases "score f < ms")
    case True
    with Cons.prems(2) fs(2)
    have run: "min_score_loop h ps (Suc i) (i, score f) = Some (mi', ms')"
      by simp
    from Cons.IH[OF fs(3) run]
    show ?thesis
    proof
      assume a: "mi' = i \<and> ms' = score f \<and> (\<forall>g\<in>set fs'. score f \<le> score g)"
      then show ?thesis using True fs(1) by auto
    next
      assume a: "Suc i \<le> mi' \<and> mi' < Suc i + length fs' \<and> ms' < score f
          \<and> score (fs' ! (mi' - Suc i)) = ms'
          \<and> (\<forall>j<mi' - Suc i. ms' < score (fs' ! j))
          \<and> (\<forall>g\<in>set fs'. ms' \<le> score g)"
      then obtain k where k: "mi' - i = Suc k" "mi' - Suc i = k"
        by (metis Suc_diff_le diff_Suc_Suc)
      have "\<forall>j<Suc k. ms' < score ((f # fs') ! j)"
        using a k by (auto simp: less_Suc_eq_0_disj)
      then show ?thesis using a True fs(1) k by auto
    qed
  next
    case False
    with Cons.prems(2) fs(2)
    have run: "min_score_loop h ps (Suc i) (mi, ms) = Some (mi', ms')"
      by simp
    from Cons.IH[OF fs(3) run]
    show ?thesis
    proof
      assume a: "mi' = mi \<and> ms' = ms \<and> (\<forall>g\<in>set fs'. ms \<le> score g)"
      then show ?thesis using False fs(1) by auto
    next
      assume a: "Suc i \<le> mi' \<and> mi' < Suc i + length fs' \<and> ms' < ms
          \<and> score (fs' ! (mi' - Suc i)) = ms'
          \<and> (\<forall>j<mi' - Suc i. ms' < score (fs' ! j))
          \<and> (\<forall>g\<in>set fs'. ms' \<le> score g)"
      then obtain k where k: "mi' - i = Suc k" "mi' - Suc i = k"
        by (metis Suc_diff_le diff_Suc_Suc)
      have "\<forall>j<Suc k. ms' < score ((f # fs') ! j)"
        using a k False by (auto simp: less_Suc_eq_0_disj)
      then show ?thesis using a False fs(1) k by auto
    qed
  qed
qed

text \<open>
  On a non-empty list of live observations whose scores are in the range of a float,
  \<open>findMinScoreFeature\<close> returns the first observation of the list that has the
  smallest score.
\<close>

lemma findMinScoreFeature_first:
  assumes obs: "map h (obs vp) = map Some fs" and ne: "obs vp \<noteq> []"
    and rng: "\<forall>f\<in>set fs. score f \<le> FLT_MAX"
  shows "\<exists>i<length (obs vp). findMinScoreFeature h vp framepos = Some (obs vp ! i)
           \<and> (\<forall>f\<in>set fs. score (fs ! i) \<le> score f)
           \<and> (\<forall>j<i. score (fs ! i) < score (fs ! j))"
proof -
  have len: "length fs = length (obs vp)"
    using obs by (metis length_map)
  obtain mi ms where run: "min_score_loop h (obs vp) 0 (0, FLT_MAX) = Some (mi, ms)"
    using min_score_loop_total[OF obs, of 0 "(0, FLT_MAX)"] by auto
  have res: "mi < length (obs vp) \<Longrightarrow> findMinScoreFeature h vp framepos = Some (obs vp ! mi)"
    using run by (simp add: findMinScoreFeature_def deref_it_def)
  from min_score_loop_spec[OF obs run]
  show ?thesis
  proof
    assume a: "mi = 0 \<and> ms = FLT_MAX \<and> (\<forall>f\<in>set fs. FLT_MAX \<le> score f)"
    have "fs ! 0 \<in> set fs" using ne len by (metis length_greater_0_conv nth_mem)
    then have "score (fs ! 0) = FLT_MAX" using a rng by fastforce
    then show ?thesis using a res ne by (intro exI[of _ 0]) auto
  next
    assume a: "0 \<le> mi \<and> mi < 0 + length fs \<and> ms < FLT_MAX
          \<and> score (fs ! (mi - 0)) = ms
          \<and> (\<forall>j<mi - 0. ms < score (fs ! j))
          \<and> (\<forall>f\<in>set fs. ms \<le> score f)"
    then show ?thesis using res len by (intro exI[of _ mi]) auto
  qed
qed

text \<open>\<open>addFrameRef\<close> prepends: after adding a list of pointers, the newest comes first.\<close>

lemma obs_add_all: "obs (add_all ps vp) = rev ps @ obs vp"
  unfolding add_all_def
  by (induction ps arbitrary: vp) (simp_all add: addFrameRef_def)

lemma findMinScoreFeature_newest:
  assumes obs: "map h ps = map Some fs" and ne: "ps \<noteq> []" and emp: "obs vp0 = []"
    and rng: "\<forall>f\<in>set fs. score f \<le> FLT_MAX"
  shows "\<exists>k<length ps. findMinScoreFeature h (add_all ps vp0) framepos = Some (ps ! k)
           \<and> (\<forall>f\<in>set fs. score (fs ! k) \<le> score f)
           \<and> (\<forall>j. k < j \<and> j < length ps \<longrightarrow> score (fs ! k) < score (fs ! j))"
proof -
  let ?vp = "add_all ps vp0"
  have o: "obs ?vp = rev ps" using emp by (simp add: obs_add_all)
  have len: "length fs = length ps" using obs by (metis length_map)
  have "rev (map h ps) = rev (map Some fs)" using obs by simp
  then have m: "map h (obs ?vp) = map Some (rev fs)" using o by (simp add: rev_map)
  have n: "obs ?vp \<noteq> []" using ne o by simp
  have r: "\<forall>f\<in>set (rev fs). score f \<le> FLT_MAX" using rng by simp
  from findMinScoreFeature_first[OF m n r, of framepos]
  obtain i where i: "i < length ps" "findMinScoreFeature h ?vp framepos = Some (rev ps ! i)"
      "\<forall>f\<in>set fs. score (rev fs ! i) \<le> score f"
      "\<forall>j<i. score (rev fs ! i) < score (rev fs ! j)"
    using o by auto
  let ?k = "length ps - Suc i"
  have k: "?k < length ps" using i(1) by simp
  have pk: "rev ps ! i = ps ! ?k" using i(1) by (simp add: rev_nth)
  have fk: "rev fs ! i = fs ! ?k" using i(1) len by (simp add: rev_nth)
  have later: "score (fs ! ?k) < score (fs ! j)" if "?k < j" "j < length ps" for j
  proof -
    have j': "length ps - Suc j < i" using that i(1) by arith
    have "rev fs ! (length ps - Suc j) = fs ! j"
      using that len by (simp add: rev_nth)
    then show ?thesis using i(4) j' fk by fastforce
  qed
  show ?thesis using k i(2) i(3) pk fk later by (intro exI[of _ ?k]) auto
qed

text \<open>
  C7: for a point whose observation list \<open>ps\<close> is not empty and points to live features
  with scores in the range of a float, \<open>findMinScoreFeature\<close> returns an observation
  with the smallest score, and among those the earliest in the list. When the list was
  built by \<open>addFrameRef\<close> from pointers added in the order \<open>ps\<close>, the observation
  returned is the one with the smallest score that was added last.
\<close>

theorem findMinScoreFeature_min_first_newest:
  assumes "map h ps = map Some fs" and "ps \<noteq> []" and "\<forall>f\<in>set fs. score f \<le> FLT_MAX"
  shows "(obs vp = ps \<longrightarrow>
           (\<exists>i<length ps. findMinScoreFeature h vp framepos = Some (ps ! i)
              \<and> (\<forall>f\<in>set fs. score (fs ! i) \<le> score f)
              \<and> (\<forall>j<i. score (fs ! i) < score (fs ! j))))
       \<and> (obs vp = [] \<longrightarrow>
           (\<exists>k<length ps. findMinScoreFeature h (add_all ps vp) framepos = Some (ps ! k)
              \<and> (\<forall>f\<in>set fs. score (fs ! k) \<le> score f)
              \<and> (\<forall>j. k < j \<and> j < length ps \<longrightarrow> score (fs ! k) < score (fs ! j))))"
proof (intro conjI impI)
  assume o: "obs vp = ps"
  show "\<exists>i<length ps. findMinScoreFeature h vp framepos = Some (ps ! i)
              \<and> (\<forall>f\<in>set fs. score (fs ! i) \<le> score f)
              \<and> (\<forall>j<i. score (fs ! i) < score (fs ! j))"
    using findMinScoreFeature_first[of h vp fs framepos] assms o by simp
next
  assume "obs vp = []"
  then show "\<exists>k<length ps. findMinScoreFeature h (add_all ps vp) framepos = Some (ps ! k)
              \<and> (\<forall>f\<in>set fs. score (fs ! k) \<le> score f)
              \<and> (\<forall>j. k < j \<and> j < length ps \<longrightarrow> score (fs ! k) < score (fs ! j))"
    using findMinScoreFeature_newest[OF assms(1,2) _ assms(3)] by simp
qed

text \<open>
  C7 at scenario S6: the features 11, 12 and 13, with the scores 7, 3 and 3, are added
  in this order; the list is then 13, 12, 11 and the feature returned is 13, the one
  added last among the two with the score 3.
\<close>

theorem findMinScoreFeature_min_first_newest_witness:
  "map three_scores [11, 12, 13]
     = map Some [anchored_at (1, 0, 0) 7, anchored_at (0, 1, 0) 3, anchored_at (- 1, 0, 0) 3]
   \<and> list_all (\<lambda>f. score f \<le> FLT_MAX)
         [anchored_at (1, 0, 0) 7, anchored_at (0, 1, 0) 3, anchored_at (- 1, 0, 0) 3]
   \<and> obs (add_all [11, 12, 13] (point_at_origin [] nullptr)) = [13, 12, 11]
   \<and> findMinScoreFeature three_scores (add_all [11, 12, 13] (point_at_origin [] nullptr)) (vec 0 0 0)
       = Some 13"
proof -
  let ?ps = "[11, 12, 13] :: feature_ptr list"
  let ?fs = "[anchored_at (1, 0, 0) 7, anchored_at (0, 1, 0) 3, anchored_at (- 1, 0, 0) 3]"
  let ?vp = "point_at_origin [] nullptr"
  have m: "map three_scores ?ps = map Some ?fs" by (simp add: three_scores_def)
  have n: "?ps \<noteq> []" by simp
  have r: "\<forall>f\<in>set ?fs. score f \<le> FLT_MAX" by (simp add: anchored_at_def FLT_MAX_def)
  have e: "obs ?vp = []" by (simp add: point_at_origin_def)
  have o: "obs (add_all ?ps ?vp) = [13, 12, 11]" by (simp add: obs_add_all e)
  from findMinScoreFeature_min_first_newest[OF m n r, of ?vp "vec 0 0 0"] e
  obtain k where k: "k < length ?ps"
      "findMinScoreFeature three_scores (add_all ?ps ?vp) (vec 0 0 0) = Some (?ps ! k)"
      "\<forall>f\<in>set ?fs. score (?fs ! k) \<le> score f"
      "\<forall>j. k < j \<and> j < length ?ps \<longrightarrow> score (?fs ! k) < score (?fs ! j)"
    by blast
  from k(1) consider "k = 0" | "k = 1" | "k = 2" by fastforce
  then have "k = 2"
  proof cases
    case 1
    then show ?thesis using k(3) by (simp add: anchored_at_def)
  next
    case 2
    then have "score (?fs ! 1) < score (?fs ! 2)" using k(4)[rule_format, of 2] by simp
    then show ?thesis by (simp add: anchored_at_def)
  next
    case 3
    then show ?thesis .
  qed
  moreover have "list_all (\<lambda>f. score f \<le> FLT_MAX) ?fs"
    using r by (simp add: list_all_iff)
  ultimately show ?thesis using m o k(2) by simp
qed

section \<open>Removing observations\<close>

text \<open>
  On a list of distinct live pointers the loop of \<open>deleteNonRefPatchFeatures\<close> keeps
  the entries equal to the reference patch and releases all others.
\<close>

lemma erase_non_ref_spec:
  assumes "distinct ps" and "\<forall>p\<in>set ps. h p \<noteq> None"
  shows "erase_non_ref h ps r =
           Some (filter (\<lambda>p. p = r) ps,
                 (\<lambda>q. if q \<in> set ps \<and> q \<noteq> r \<and> q \<noteq> nullptr then None else h q))"
  using assms
proof (induction ps arbitrary: h)
  case Nil
  then show ?case by simp
next
  case (Cons p ps)
  show ?case
  proof (cases "p = r")
    case True
    have "erase_non_ref h ps r =
        Some (filter (\<lambda>p. p = r) ps,
              (\<lambda>q. if q \<in> set ps \<and> q \<noteq> r \<and> q \<noteq> nullptr then None else h q))"
      using Cons by simp
    then show ?thesis using True by (auto simp: fun_eq_iff)
  next
    case False
    show ?thesis
    proof (cases "p = nullptr")
      case True
      have "erase_non_ref h ps r =
          Some (filter (\<lambda>p. p = r) ps,
                (\<lambda>q. if q \<in> set ps \<and> q \<noteq> r \<and> q \<noteq> nullptr then None else h q))"
        using Cons by simp
      then show ?thesis using True False by (auto simp: delete_ptr_def fun_eq_iff)
    next
      case nn: False
      let ?h = "h(p := None)"
      have live: "\<forall>q\<in>set ps. ?h q \<noteq> None" using Cons.prems by auto
      have "erase_non_ref ?h ps r =
          Some (filter (\<lambda>p. p = r) ps,
                (\<lambda>q. if q \<in> set ps \<and> q \<noteq> r \<and> q \<noteq> nullptr then None else ?h q))"
      proof (rule Cons.IH[OF _ live])
        show "distinct ps" using Cons.prems(1) by simp
      qed
      moreover have "delete_ptr p h = Some ?h"
        using Cons.prems(2) nn by (simp add: delete_ptr_def)
      ultimately show ?thesis using False nn by (auto simp: fun_eq_iff)
    qed
  qed
qed

lemma filter_eq_distinct:
  "distinct ps \<Longrightarrow> filter (\<lambda>p. p = r) ps = (if r \<in> set ps then [r] else [])"
  by (induction ps) auto

text \<open>
  C8: for a point whose observations are distinct pointers to live features (no object
  lives at the null address), \<open>deleteNonRefPatchFeatures\<close> returns, leaves
  \<open>ref_patch\<close> as it is, and the observation list that remains holds the reference patch
  only: it is \<open>[ref_patch]\<close> if the reference patch was an observation and empty
  otherwise. Every other observation has been released, nothing else in the free store
  has changed, and without a reference patch (\<open>ref_patch\<close> null) the list is empty.
\<close>

theorem deleteNonRefPatchFeatures_keeps_only_ref:
  assumes "distinct (obs vp)" and "\<forall>p\<in>set (obs vp). h p \<noteq> None" and "h nullptr = None"
  shows "\<exists>vp' h'. deleteNonRefPatchFeatures vp h = Some (vp', h')
           \<and> ref_patch vp' = ref_patch vp
           \<and> set (obs vp') \<subseteq> {ref_patch vp'}
           \<and> obs vp' = (if ref_patch vp \<in> set (obs vp) then [ref_patch vp] else [])
           \<and> (\<forall>p\<in>set (obs vp). p \<noteq> ref_patch vp \<longrightarrow> h' p = None)
           \<and> (\<forall>q. q \<notin> set (obs vp) \<or> q = ref_patch vp \<longrightarrow> h' q = h q)
           \<and> (ref_patch vp = nullptr \<longrightarrow> obs vp' = [])"
proof -
  have nn: "nullptr \<notin> set (obs vp)" using assms(2,3) by auto
  show ?thesis
    using erase_non_ref_spec[OF assms(1,2), of "ref_patch vp"] nn
    by (auto simp: deleteNonRefPatchFeatures_def filter_eq_distinct[OF assms(1)])
qed

text \<open>
  C8 at scenario S4: the point observes 11, 12 and 13 and its reference patch is 12;
  afterwards the list is \<open>[12]\<close>, and 11 and 13 are released.
\<close>

theorem deleteNonRefPatchFeatures_keeps_only_ref_witness:
  "distinct (obs (point_at_origin [11, 12, 13] 12))
   \<and> list_all (\<lambda>p. three_views p \<noteq> None) (obs (point_at_origin [11, 12, 13] 12))
   \<and> three_views nullptr = None
   \<and> (\<exists>vp' h'. deleteNonRefPatchFeatures (point_at_origin [11, 12, 13] 12) three_views
                  = Some (vp', h')
         \<and> obs vp' = [12] \<and> h' 11 = None \<and> h' 13 = None \<and> h' 12 = three_views 12)"
proof -
  let ?vp = "point_at_origin [11, 12, 13] 12"
  have o: "obs ?vp = [11, 12, 13]" and r: "ref_patch ?vp = 12"
    by (simp_all add: point_at_origin_def)
  have d: "distinct (obs ?vp)" by (simp add: o)
  have l: "\<forall>p\<in>set (obs ?vp). three_views p \<noteq> None" by (simp add: o three_views_def)
  have z: "three_views nullptr = None" by (simp add: three_views_def nullptr_def)
  from deleteNonRefPatchFeatures_keeps_only_ref[OF d l z]
  obtain vp' h' where res: "deleteNonRefPatchFeatures ?vp three_views = Some (vp', h')"
      "obs vp' = (if ref_patch ?vp \<in> set (obs ?vp) then [ref_patch ?vp] else [])"
      "\<forall>p\<in>set (obs ?vp). p \<noteq> ref_patch ?vp \<longrightarrow> h' p = None"
      "\<forall>q. q \<notin> set (obs ?vp) \<or> q = ref_patch ?vp \<longrightarrow> h' q = three_views q"
    by blast
  have "obs vp' = [12]" using res(2) by (simp add: o r)
  moreover have "h' 11 = None" "h' 13 = None" using res(3) by (simp_all add: o r)
  moreover have "h' 12 = three_views 12" using res(4) by (simp add: r)
  moreover have "list_all (\<lambda>p. three_views p \<noteq> None) (obs ?vp)"
    using l by (simp add: list_all_iff)
  ultimately show ?thesis using d z res(1) by blast
qed

text \<open>
  C9: for a live feature \<open>ftr\<close>, \<open>addFrameRef\<close> followed by \<open>deleteFeatureRef\<close> returns
  and leaves the observation list as it was before the two calls. The scan erases the
  first entry equal to \<open>ftr\<close>, which is the one just prepended, so this holds whether
  or not \<open>ftr\<close> was in the list before.
\<close>

theorem addFrameRef_deleteFeatureRef_restores:
  assumes "h ftr = Some f"
  shows "\<exists>vp' h'. deleteFeatureRef (addFrameRef vp ftr) ftr h = Some (vp', h')
           \<and> obs vp' = obs vp"
proof -
  have "delete_ptr ftr h = Some (if ftr = nullptr then h else h(ftr := None))"
    using assms by (simp add: delete_ptr_def)
  then obtain h' where d: "delete_ptr ftr h = Some h'" by blast
  have first: "erase_first h (ftr # obs vp) ftr = Some (obs vp, h')"
    using d by simp
  show ?thesis
  proof (cases "ref_patch vp = ftr")
    case True
    then have "deleteFeatureRef (addFrameRef vp ftr) ftr h
        = Some (vp\<lparr>ref_patch := nullptr, has_ref_patch := False\<rparr>, h')"
      using first by (simp add: deleteFeatureRef_def addFrameRef_def)
    then show ?thesis by simp
  next
    case False
    then have "deleteFeatureRef (addFrameRef vp ftr) ftr h = Some (vp, h')"
      using first by (simp add: deleteFeatureRef_def addFrameRef_def)
    then show ?thesis by simp
  qed
qed

text \<open>
  C9 at a point observing 11 and 12: adding the live feature 13 and deleting it again
  leaves the list 11, 12.
\<close>

theorem addFrameRef_deleteFeatureRef_restores_witness:
  "three_views 13 = Some (anchored_at (- 1, 0, 0) 0)
   \<and> 13 \<notin> set (obs (point_at_origin [11, 12] 12))
   \<and> (\<exists>vp' h'. deleteFeatureRef (addFrameRef (point_at_origin [11, 12] 12) 13) 13 three_views
                  = Some (vp', h')
         \<and> obs vp' = [11, 12])"
proof -
  have a: "three_views 13 = Some (anchored_at (- 1, 0, 0) 0)" by (simp add: three_views_def)
  have o: "obs (point_at_origin [11, 12] 12) = [11, 12]" by (simp add: point_at_origin_def)
  show ?thesis
    using addFrameRef_deleteFeatureRef_restores[of three_views 13 "anchored_at (- 1, 0, 0) 0"
        "point_at_origin [11, 12] 12", OF a] a o
    by simp
qed

section \<open>Frame construction\<close>

lemma Frame_ctor_result:
  "fst (Frame_ctor camera im st) =
     (if Mat_empty im then Inl EmptyImage
      else if mat_type im \<noteq> CV_8UC1 then Inl BadPixelFormat
      else Inr \<lparr>id_frame = frame_counter st, cam = camera, img = im, fts = []\<rparr>)"
  by (simp add: Frame_ctor_def initFrame_def Let_def EmptyImage_def BadPixelFormat_def)

lemma Frame_ctor_counter:
  "frame_counter (snd (Frame_ctor camera im st)) = frame_counter st + 1"
  by (simp add: Frame_ctor_def initFrame_def Let_def)

lemma Frame_ctor_cerr:
  "cerr (snd (Frame_ctor camera im st)) =
     (if \<not> Mat_empty im \<and> (int (cols im) \<noteq> width camera \<or> int (rows im) \<noteq> height camera)
      then cerr st @ [size_warning]
      else cerr st)"
  by (simp add: Frame_ctor_def initFrame_def Let_def size_warning_def)

lemma Frame_ctor_id:
  "fst (Frame_ctor camera im st) = Inr f \<Longrightarrow> id_frame f = frame_counter st"
  by (auto simp: Frame_ctor_result split: if_splits)

text \<open>
  C6: the construction fails exactly when the image is empty or its type is not
  \<open>CV_8UC1\<close>, with the exception for the empty image in the first case and the one for
  the pixel format in the second. For an image that is neither, the frame is
  constructed with the supplied image as its \<open>img_\<close>, and the only output is the
  warning on \<open>std::cerr\<close>, written exactly when the size of the image differs from the
  size of the camera model.
\<close>

theorem Frame_ctor_fails_iff:
  "(isl (fst (Frame_ctor camera im st)) \<longleftrightarrow> Mat_empty im \<or> mat_type im \<noteq> CV_8UC1)
   \<and> (Mat_empty im \<longrightarrow> fst (Frame_ctor camera im st) = Inl EmptyImage)
   \<and> (\<not> Mat_empty im \<and> mat_type im \<noteq> CV_8UC1 \<longrightarrow>
        fst (Frame_ctor camera im st) = Inl BadPixelFormat)
   \<and> (\<not> Mat_empty im \<and> mat_type im = CV_8UC1 \<longrightarrow>
        (\<exists>f. fst (Frame_ctor camera im st) = Inr f \<and> img f = im \<and> cam f = camera)
        \<and> cerr (snd (Frame_ctor camera im st)) =
            (if int (cols im) \<noteq> width camera \<or> int (rows im) \<noteq> height camera
             then cerr st @ [size_warning] else cerr st))"
proof (cases "Mat_empty im")
  case True
  then have "fst (Frame_ctor camera im st) = Inl EmptyImage" by (simp add: Frame_ctor_result)
  then show ?thesis using True by simp
next
  case ne: False
  show ?thesis
  proof (cases "mat_type im = CV_8UC1")
    case True
    have "fst (Frame_ctor camera im st)
        = Inr \<lparr>id_frame = frame_counter st, cam = camera, img = im, fts = []\<rparr>"
      using ne True by (simp add: Frame_ctor_result)
    moreover have "cerr (snd (Frame_ctor camera im st)) =
        (if int (cols im) \<noteq> width camera \<or> int (rows im) \<noteq> height camera
         then cerr st @ [size_warning] else cerr st)"
      using ne by (simp add: Frame_ctor_cerr)
    ultimately show ?thesis using ne True by simp
  next
    case False
    then have "fst (Frame_ctor camera im st) = Inl BadPixelFormat"
      using ne by (simp add: Frame_ctor_result)
    then show ?thesis using ne False by simp
  qed
qed

text \<open>
  C6 at a valid 4 by 2 image and a 640 by 480 camera: the frame is constructed from
  the image and one warning is written; at the default (empty) image and at an image
  of another type the construction fails.
\<close>

theorem Frame_ctor_fails_iff_witness:
  "\<not> Mat_empty small_img \<and> mat_type small_img = CV_8UC1
   \<and> int (cols small_img) \<noteq> width wide_cam
   \<and> fst (Frame_ctor wide_cam small_img fresh_process)
       = Inr \<lparr>id_frame = 0, cam = wide_cam, img = small_img, fts = []\<rparr>
   \<and> cerr (snd (Frame_ctor wide_cam small_img fresh_process)) = [size_warning]
   \<and> Mat_empty Mat_default
   \<and> fst (Frame_ctor wide_cam Mat_default fresh_process) = Inl EmptyImage
   \<and> fst (Frame_ctor wide_cam (small_img\<lparr>mat_type := 16\<rparr>) fresh_process) = Inl BadPixelFormat"
proof -
  have a: "\<not> Mat_empty small_img" "mat_type small_img = CV_8UC1"
      "int (cols small_img) \<noteq> width wide_cam"
    by (simp_all add: Mat_empty_def small_img_def wide_cam_def)
  have b: "Mat_empty Mat_default" by (simp add: Mat_empty_def Mat_default_def)
  have c: "\<not> Mat_empty (small_img\<lparr>mat_type := 16\<rparr>)"
      "mat_type (small_img\<lparr>mat_type := 16\<rparr>) \<noteq> CV_8UC1"
    by (simp_all add: Mat_empty_def small_img_def CV_8UC1_def)
  from Frame_ctor_fails_iff[of wide_cam small_img fresh_process] a
  obtain f where f: "fst (Frame_ctor wide_cam small_img fresh_process) = Inr f"
      "img f = small_img" "cam f = wide_cam"
      and w: "cerr (snd (Frame_ctor wide_cam small_img fresh_process)) = cerr fresh_process @ [size_warning]"
    by auto
  have "id_frame f = 0" "fts f = []"
    using f(1) by (auto simp: Frame_ctor_def initFrame_def Let_def fresh_process_def split: if_splits)
  then have "f = \<lparr>id_frame = 0, cam = wide_cam, img = small_img, fts = []\<rparr>"
    using f(2,3) by simp
  moreover have "fst (Frame_ctor wide_cam Mat_default fresh_process) = Inl EmptyImage"
    using Frame_ctor_fails_iff[of wide_cam Mat_default fresh_process] b by simp
  moreover have "fst (Frame_ctor wide_cam (small_img\<lparr>mat_type := 16\<rparr>) fresh_process) = Inl BadPixelFormat"
    using Frame_ctor_fails_iff[of wide_cam "small_img\<lparr>mat_type := 16\<rparr>" fresh_process] c by simp
  ultimately show ?thesis using a b f(1) w by (simp add: fresh_process_def)
qed

subsection \<open>The ids of a sequence of constructions\<close>

lemma construct_frames_length:
  "length (fst (construct_frames attempts st)) = length attempts"
  by (induction attempts st rule: construct_frames.induct) (auto simp: Let_def split: prod.splits)

lemma construct_frames_counter:
  "frame_counter (snd (construct_frames attempts st)) = frame_counter st + of_nat (length attempts)"
proof (induction attempts st rule: construct_frames.induct)
  case (1 st)
  then show ?case by simp
next
  case (2 camera im rest st)
  obtain r st1 where c: "Frame_ctor camera im st = (r, st1)" by (cases "Frame_ctor camera im st")
  obtain rs st2 where d: "construct_frames rest st1 = (rs, st2)" by (cases "construct_frames rest st1")
  have "frame_counter st1 = frame_counter st + 1"
    using Frame_ctor_counter[of camera im st] c by simp
  then show ?case using 2[OF c[symmetric] refl] c d by simp
qed

lemma construct_frames_nth:
  "k < length attempts \<Longrightarrow> fst (construct_frames attempts st) ! k = Inr f
     \<Longrightarrow> id_frame f = frame_counter st + of_nat k"
proof (induction attempts st arbitrary: k rule: construct_frames.induct)
  case (1 st)
  then show ?case by simp
next
  case (2 camera im rest st)
  obtain r st1 where c: "Frame_ctor camera im st = (r, st1)" by (cases "Frame_ctor camera im st")
  obtain rs st2 where d: "construct_frames rest st1 = (rs, st2)" by (cases "construct_frames rest st1")
  have st1: "frame_counter st1 = frame_counter st + 1"
    using Frame_ctor_counter[of camera im st] c by simp
  show ?case
  proof (cases k)
    case 0
    then have "r = Inr f" using "2.prems" c d by simp
    then show ?thesis using Frame_ctor_id[of camera im st f] c 0 by simp
  next
    case (Suc k')
    then have "fst (construct_frames rest st1) ! k' = Inr f" "k' < length rest"
      using "2.prems" c d by auto
    then have "id_frame f = frame_counter st1 + of_nat k'"
      using "2.IH"[OF c[symmetric] refl] by simp
    then show ?thesis using st1 Suc by simp
  qed
qed

text \<open>Incrementing a counter below \<open>INT_MAX\<close> does not wrap.\<close>

lemma sint_succ:
  fixes c :: "32 word"
  assumes "sint c + 1 < 2 ^ 31"
  shows "sint (c + 1) = sint c + 1"
proof -
  have lo: "- (2 ^ 31) \<le> sint c" using sint_ge[of c] by simp
  have "sint (c + 1) = signed_take_bit 31 (sint c + 1)"
    by (simp add: sint_word_ariths)
  also have "\<dots> = sint c + 1"
    using lo assms by (intro signed_take_bit_int_eq_self) auto
  finally show ?thesis .
qed

lemma sint_add_nat:
  fixes c :: "32 word"
  assumes "sint c + int k < 2 ^ 31"
  shows "sint (c + of_nat k) = sint c + int k"
  using assms
proof (induction k)
  case 0
  then show ?case by simp
next
  case (Suc k)
  then have ih: "sint (c + of_nat k) = sint c + int k" by simp
  have "sint (c + of_nat k + 1) = sint (c + of_nat k) + 1"
    using Suc.prems ih by (intro sint_succ) simp
  then show ?case using ih by (simp add: ac_simps)
qed

lemma constructed_ids_range:
  "w \<in> set (constructed_ids (fst (construct_frames attempts st)))
     \<Longrightarrow> \<exists>k<length attempts. w = frame_counter st + of_nat k"
proof (induction attempts st rule: construct_frames.induct)
  case (1 st)
  then show ?case by simp
next
  case (2 camera im rest st)
  obtain r st1 where c: "Frame_ctor camera im st = (r, st1)" by (cases "Frame_ctor camera im st")
  obtain rs st2 where d: "construct_frames rest st1 = (rs, st2)" by (cases "construct_frames rest st1")
  have st1: "frame_counter st1 = frame_counter st + 1"
    using Frame_ctor_counter[of camera im st] c by simp
  from "2.prems" c d have "w \<in> set (constructed_ids (r # rs))" by simp
  then consider (hd) f where "r = Inr f" "w = id_frame f" | (tl) "w \<in> set (constructed_ids rs)"
    by (cases r) auto
  then show ?case
  proof cases
    case hd
    then have "w = frame_counter st + of_nat 0"
      using Frame_ctor_id[of camera im st f] c by simp
    then show ?thesis by (intro exI[of _ 0]) simp
  next
    case tl
    then obtain k where "k < length rest" "w = frame_counter st1 + of_nat k"
      using "2.IH"[OF c[symmetric] refl] d by auto
    then show ?thesis using st1 by (intro exI[of _ "Suc k"]) simp
  qed
qed

lemma constructed_ids_increasing:
  "sint (frame_counter st) + int (length attempts) < 2 ^ 31
     \<Longrightarrow> sorted_wrt (\<lambda>a b. sint a < sint b) (constructed_ids (fst (construct_frames attempts st)))"
proof (induction attempts st rule: construct_frames.induct)
  case (1 st)
  then show ?case by simp
next
  case (2 camera im rest st)
  obtain r st1 where c: "Frame_ctor camera im st = (r, st1)" by (cases "Frame_ctor camera im st")
  obtain rs st2 where d: "construct_frames rest st1 = (rs, st2)" by (cases "construct_frames rest st1")
  have st1: "frame_counter st1 = frame_counter st + 1"
    using Frame_ctor_counter[of camera im st] c by simp
  have s1: "sint (frame_counter st1) = sint (frame_counter st) + 1"
    unfolding st1 using "2.prems" by (intro sint_succ) simp
  have ih: "sorted_wrt (\<lambda>a b. sint a < sint b) (constructed_ids rs)"
    using "2.IH"[OF c[symmetric] refl] "2.prems" s1 d by simp
  have later: "sint (frame_counter st) < sint w" if mem: "w \<in> set (constructed_ids rs)" for w
  proof -
    obtain k where k: "k < length rest" "w = frame_counter st1 + of_nat k"
      using constructed_ids_range[of w rest st1] mem d by auto
    have "sint w = sint (frame_counter st1) + int k"
      unfolding k(2) using "2.prems" s1 k(1) by (intro sint_add_nat) simp
    then show ?thesis using s1 by simp
  qed
  show ?case
  proof (cases r)
    case (Inl e)
    then show ?thesis using c d ih by simp
  next
    case (Inr f)
    then have "id_frame f = frame_counter st" using Frame_ctor_id[of camera im st f] c by simp
    then show ?thesis using Inr c d ih later by simp
  qed
qed

lemma constructed_ids_all_ok:
  "\<forall>r\<in>set (fst (construct_frames attempts st)). \<not> isl r
     \<Longrightarrow> constructed_ids (fst (construct_frames attempts st)) =
          map (\<lambda>k. frame_counter st + of_nat k) [0..<length attempts]"
proof (induction attempts st rule: construct_frames.induct)
  case (1 st)
  then show ?case by simp
next
  case (2 camera im rest st)
  obtain r st1 where c: "Frame_ctor camera im st = (r, st1)" by (cases "Frame_ctor camera im st")
  obtain rs st2 where d: "construct_frames rest st1 = (rs, st2)" by (cases "construct_frames rest st1")
  have st1: "frame_counter st1 = frame_counter st + 1"
    using Frame_ctor_counter[of camera im st] c by simp
  obtain f where f: "r = Inr f" using "2.prems" c d by (cases r) auto
  have idf: "id_frame f = frame_counter st" using Frame_ctor_id[of camera im st f] c f by simp
  have "constructed_ids rs = map (\<lambda>k. frame_counter st1 + of_nat k) [0..<length rest]"
    using "2.IH"[OF c[symmetric] refl] "2.prems" c d by simp
  also have "\<dots> = map (\<lambda>k. frame_counter st + of_nat k) (map Suc [0..<length rest])"
    using st1 by (simp add: add.assoc)
  finally show ?case using c d f idf
    by (simp add: upt_conv_Cons map_Suc_upt del: upt_Suc)
qed

text \<open>
  C3, as stated, fails: of three construction attempts in a fresh process, the second
  with an empty image, the first and the third succeed, with the ids 0 and 2. The
  member initialiser \<open>id_(frame_counter_++)\<close> runs before \<open>initFrame\<close> throws, so the
  failed attempt has used the id 1.
\<close>

theorem frame_ids_gap_after_failure:
  "constructed_ids (fst (construct_frames
      [(small_cam, small_img), (small_cam, Mat_default), (small_cam, small_img)] fresh_process))
     = [0, 2]"
  by (simp add: Frame_ctor_def initFrame_def Let_def Mat_empty_def Mat_default_def small_img_def
      small_cam_def fresh_process_def CV_8UC1_def)

text \<open>
  C3, amended: every construction attempt, successful or not, takes the current value
  of the counter and increments it, so the frame constructed by the attempt number
  \<open>k\<close> of a sequence has the id \<open>frame_counter + k\<close>. As long as the counter does not
  pass \<open>INT_MAX\<close>, the ids of the constructed frames are strictly increasing; they are
  consecutive when no attempt fails, and each failed attempt leaves a gap of one.
\<close>

theorem frame_ids_count_attempts:
  "length (fst (construct_frames attempts st)) = length attempts
   \<and> frame_counter (snd (construct_frames attempts st)) = frame_counter st + of_nat (length attempts)
   \<and> (\<forall>k<length attempts. \<forall>f. fst (construct_frames attempts st) ! k = Inr f
         \<longrightarrow> id_frame f = frame_counter st + of_nat k)
   \<and> (sint (frame_counter st) + int (length attempts) < 2 ^ 31 \<longrightarrow>
        sorted_wrt (\<lambda>a b. sint a < sint b) (constructed_ids (fst (construct_frames attempts st))))
   \<and> ((\<forall>r\<in>set (fst (construct_frames attempts st)). \<not> isl r) \<longrightarrow>
        constructed_ids (fst (construct_frames attempts st)) =
          map (\<lambda>k. frame_counter st + of_nat k) [0..<length attempts])"
  using construct_frames_length construct_frames_counter construct_frames_nth
    constructed_ids_increasing constructed_ids_all_ok
  by blast

text \<open>
  The amended C3 at three successful attempts in a fresh process (ids 0, 1, 2) and at
  the sequence with a failed second attempt (the third attempt gets the id 2).
\<close>

theorem frame_ids_count_attempts_witness:
  "sint (frame_counter fresh_process) + int (length [(small_cam, small_img), (wide_cam, small_img), (small_cam, small_img)]) < 2 ^ 31
   \<and> map isl (fst (construct_frames
          [(small_cam, small_img), (wide_cam, small_img), (small_cam, small_img)] fresh_process))
       = [False, False, False]
   \<and> constructed_ids (fst (construct_frames
        [(small_cam, small_img), (wide_cam, small_img), (small_cam, small_img)] fresh_process))
       = [0, 1, 2]
   \<and> sorted_wrt (\<lambda>a b. sint a < sint b) (constructed_ids (fst (construct_frames
        [(small_cam, small_img), (small_cam, Mat_default), (small_cam, small_img)] fresh_process)))"
proof -
  let ?ok = "[(small_cam, small_img), (wide_cam, small_img), (small_cam, small_img)]"
  let ?gap = "[(small_cam, small_img), (small_cam, Mat_default), (small_cam, small_img)]"
  have b: "sint (frame_counter fresh_process) + int (length ?ok) < 2 ^ 31"
      "sint (frame_counter fresh_process) + int (length ?gap) < 2 ^ 31"
    by (simp_all add: fresh_process_def)
  have ok: "\<forall>r\<in>set (fst (construct_frames ?ok fresh_process)). \<not> isl r"
    by (simp add: Frame_ctor_def initFrame_def Let_def Mat_empty_def small_img_def)
  have "constructed_ids (fst (construct_frames ?ok fresh_process)) =
      map (\<lambda>k. frame_counter fresh_process + of_nat k) [0..<length ?ok]"
    using frame_ids_count_attempts[of ?ok fresh_process] ok by blast
  also have "\<dots> = [0, 1, 2]"
    by (simp add: fresh_process_def upt_rec)
  finally have ids: "constructed_ids (fst (construct_frames ?ok fresh_process)) = [0, 1, 2]" .
  have "sorted_wrt (\<lambda>a b. sint a < sint b) (constructed_ids (fst (construct_frames ?gap fresh_process)))"
    using frame_ids_count_attempts[of ?gap fresh_process] b(2) by blast
  moreover have "map isl (fst (construct_frames ?ok fresh_process)) = [False, False, False]"
    by (simp add: Frame_ctor_def initFrame_def Let_def Mat_empty_def small_img_def)
  ultimately show ?thesis using b(1) ids by blast
qed

section \<open>The image pyramid\<close>

text \<open>The equation of the loop is unfolded by hand, one round at a time.\<close>

declare pyramid_loop.simps [simp del]

lemma heap_extends_refl: "heap_extends h h"
  by (simp add: heap_extends_def)

lemma heap_extends_trans: "heap_extends h h1 \<Longrightarrow> heap_extends h1 h2 \<Longrightarrow> heap_extends h h2"
  by (auto simp: heap_extends_def)

lemma valid_Mat_extends: "valid_Mat h m \<Longrightarrow> heap_extends h h' \<Longrightarrow> valid_Mat h' m"
  by (auto simp: valid_Mat_def heap_extends_def split: option.splits)

lemma pixel_extends: "valid_Mat h m \<Longrightarrow> heap_extends h h' \<Longrightarrow> pixel h' m y x = pixel h m y x"
  by (auto simp: valid_Mat_def heap_extends_def pixel_def split: option.splits)

lemma half_sampled_extends:
  "valid_Mat h prev \<Longrightarrow> valid_Mat h cur \<Longrightarrow> heap_extends h h' \<Longrightarrow> half_sampled h prev cur
     \<Longrightarrow> half_sampled h' prev cur"
  by (simp add: half_sampled_def pixel_extends)

lemma index_bound: "y < r \<Longrightarrow> x < c \<Longrightarrow> y * c + x < r * (c::nat)"
proof -
  assume a: "y < r" "x < c"
  have "y * c + x < y * c + c" using a(2) by simp
  also have "\<dots> = Suc y * c" by simp
  also have "\<dots> \<le> r * c" using a(1) by (intro mult_le_mono1) simp
  finally show ?thesis .
qed

lemma half_pixels_nth:
  assumes "y < r" "x < c"
  shows "buf_at (half_pixels buf w r c) c y x =
           box_average (buf_at buf w (2 * y) (2 * x)) (buf_at buf w (2 * y) (2 * x + 1))
             (buf_at buf w (2 * y + 1) (2 * x)) (buf_at buf w (2 * y + 1) (2 * x + 1))"
proof -
  have b: "y * c + x < r * c" using assms by (rule index_bound)
  have d: "(y * c + x) div c = y" "(y * c + x) mod c = x" using assms(2) by simp_all
  show ?thesis using b d by (simp add: buf_at_def half_pixels_def Let_def)
qed

text \<open>
  The four bytes read for a pixel of the smaller image lie inside the buffer of the
  larger one: the bound check of \<open>buf_at\<close> never fires there.
\<close>

lemma half_sample_reads_in_range:
  assumes "length buf = r * w" and "y < r div 2" and "x < w div 2"
  shows "(2 * y + 1) * w + (2 * x + 1) < length buf"
    and "buf_at buf w (2 * y + 1) (2 * x + 1) = buf ! ((2 * y + 1) * w + (2 * x + 1))"
proof -
  have "2 * y + 1 < r" "2 * x + 1 < w" using assms(2,3) by auto
  then have "(2 * y + 1) * w + (2 * x + 1) < r * w" by (rule index_bound)
  then show "(2 * y + 1) * w + (2 * x + 1) < length buf" using assms(1) by simp
  then show "buf_at buf w (2 * y + 1) (2 * x + 1) = buf ! ((2 * y + 1) * w + (2 * x + 1))"
    by (simp add: buf_at_def)
qed

text \<open>
  One round of the loop: a header of half the size is created and filled from the
  previous level. The new level is valid, it is the half-sampling of the previous one,
  and no buffer that existed before is touched.
\<close>

lemma half_step:
  assumes v: "valid_Mat h prev"
    and c: "Mat_create (rows prev div 2) (cols prev div 2) t h = (m, h1)"
  shows "valid_Mat (halfSample prev m h1) m \<and> half_sampled (halfSample prev m h1) prev m
       \<and> heap_extends h (halfSample prev m h1) \<and> mat_type m = t"
proof (cases "(rows prev div 2) * (cols prev div 2) = 0")
  case True
  then have m: "m = \<lparr>rows = rows prev div 2, cols = cols prev div 2, mat_type = t, data = None\<rparr>"
    and h1: "h1 = h" using c by (auto simp: Mat_create_def)
  have hs: "halfSample prev m h1 = h" using m h1 by (simp add: halfSample_def split: option.splits)
  have "\<forall>y<rows m. \<forall>x<cols m. False" using True m by auto
  then show ?thesis using m hs True
    by (auto simp: valid_Mat_def half_sampled_def heap_extends_def)
next
  case False
  let ?r = "rows prev div 2" and ?c = "cols prev div 2"
  from False have m: "m = \<lparr>rows = ?r, cols = ?c, mat_type = t, data = Some (length h)\<rparr>"
    and h1: "h1 = h @ [replicate (?r * ?c) 0]" using c by (auto simp: Mat_create_def)
  from False have "rows prev * cols prev \<noteq> 0" by auto
  then obtain a where a: "data prev = Some a" "a < length h" "length (h ! a) = rows prev * cols prev"
    using v by (auto simp: valid_Mat_def split: option.splits)
  let ?h2 = "halfSample prev m h1"
  have h2: "?h2 = h1[length h := half_pixels (h ! a) (cols prev) ?r ?c]"
    using a m h1 by (simp add: halfSample_def nth_append)
  have len: "length ?h2 = Suc (length h)" using h2 h1 by simp
  have new: "?h2 ! length h = half_pixels (h ! a) (cols prev) ?r ?c"
    using h2 h1 by simp
  have old: "\<forall>b<length h. ?h2 ! b = h ! b" using h2 h1 by (simp add: nth_append)
  have ext: "heap_extends h ?h2" using len old by (simp add: heap_extends_def)
  have val: "valid_Mat ?h2 m" using m len new by (simp add: valid_Mat_def half_pixels_def)
  have pm: "pixel ?h2 m y x = buf_at (half_pixels (h ! a) (cols prev) ?r ?c) ?c y x" for y x
    using m len new by (simp add: pixel_def)
  have pp: "pixel ?h2 prev y x = buf_at (h ! a) (cols prev) y x" for y x
    using a len old by (simp add: pixel_def)
  have "half_sampled ?h2 prev m"
    unfolding half_sampled_def pm pp using m by (simp add: half_pixels_nth)
  then show ?thesis using val ext m by simp
qed

text \<open>
  The invariant of the loop: the levels below \<open>i\<close> are valid headers, each the
  half-sampling of its predecessor; the loop keeps them and the existing buffers, and
  ends with all levels in this state.
\<close>

lemma pyramid_loop_inv:
  assumes "1 \<le> i" "i \<le> n" "length pyr = nat n"
    and "\<forall>k<nat i. valid_Mat h (pyr ! k)"
    and "\<forall>k. 1 \<le> k \<and> k < nat i \<longrightarrow>
           half_sampled h (pyr ! (k - 1)) (pyr ! k) \<and> mat_type (pyr ! k) = CV_8U"
    and "pyramid_loop i n pyr h = (pyr', h')"
  shows "length pyr' = nat n \<and> (\<forall>k<nat i. pyr' ! k = pyr ! k) \<and> heap_extends h h'
       \<and> (\<forall>k<nat n. valid_Mat h' (pyr' ! k))
       \<and> (\<forall>k. 1 \<le> k \<and> k < nat n \<longrightarrow>
            half_sampled h' (pyr' ! (k - 1)) (pyr' ! k) \<and> mat_type (pyr' ! k) = CV_8U)"
  using assms
proof (induction i n pyr h rule: pyramid_loop.induct)
  case (1 i n pyr h)
  show ?case
  proof (cases "i < n")
    case False
    then have "i = n" using "1.prems"(2) by simp
    moreover have "pyr' = pyr" "h' = h"
      using "1.prems"(6) False by (simp_all add: pyramid_loop.simps)
    ultimately show ?thesis using "1.prems" by (simp add: heap_extends_refl)
  next
    case True
    let ?prev = "pyr ! nat (i - 1)"
    obtain m h1 where mc: "Mat_create (rows ?prev div 2) (cols ?prev div 2) CV_8U h = (m, h1)"
      by (cases "Mat_create (rows ?prev div 2) (cols ?prev div 2) CV_8U h")
    let ?pyr1 = "pyr[nat i := m]"
    let ?h2 = "halfSample (?pyr1 ! nat (i - 1)) (?pyr1 ! nat i) h1"
    have ni: "nat i < length pyr" "nat (i - 1) < nat i" "nat (i - 1) = nat i - 1" "1 \<le> nat i"
      using True "1.prems"(1,3) by auto
    have p1: "?pyr1 ! nat (i - 1) = ?prev" "?pyr1 ! nat i = m" using ni by simp_all
    have vprev: "valid_Mat h ?prev" using "1.prems"(4) ni by simp
    from half_step[OF vprev mc]
    have st: "valid_Mat ?h2 m" "half_sampled ?h2 ?prev m" "heap_extends h ?h2" "mat_type m = CV_8U"
      unfolding p1 by simp_all
    have run: "pyramid_loop (i + 1) n ?pyr1 ?h2 = (pyr', h')"
      using "1.prems"(6) True mc by (subst (asm) pyramid_loop.simps) (simp add: Let_def)
    have A: "\<forall>k<nat (i + 1). valid_Mat ?h2 (?pyr1 ! k)"
    proof (intro allI impI)
      fix k assume "k < nat (i + 1)"
      then consider "k < nat i" | "k = nat i" using ni by linarith
      then show "valid_Mat ?h2 (?pyr1 ! k)"
      proof cases
        case 1
        then have "valid_Mat h (pyr ! k)" using "1.prems"(4) by simp
        then show ?thesis using 1 st(3) valid_Mat_extends by simp
      next
        case 2
        then show ?thesis using st(1) p1 by simp
      qed
    qed
    have B: "\<forall>k. 1 \<le> k \<and> k < nat (i + 1) \<longrightarrow>
               half_sampled ?h2 (?pyr1 ! (k - 1)) (?pyr1 ! k) \<and> mat_type (?pyr1 ! k) = CV_8U"
    proof (intro allI impI)
      fix k assume k: "1 \<le> k \<and> k < nat (i + 1)"
      then consider "k < nat i" | "k = nat i" using ni by linarith
      then show "half_sampled ?h2 (?pyr1 ! (k - 1)) (?pyr1 ! k) \<and> mat_type (?pyr1 ! k) = CV_8U"
      proof cases
        case 1
        then have hs: "half_sampled h (pyr ! (k - 1)) (pyr ! k)" "mat_type (pyr ! k) = CV_8U"
          using "1.prems"(5) k by simp_all
        have "valid_Mat h (pyr ! (k - 1))" "valid_Mat h (pyr ! k)"
          using "1.prems"(4) 1 by simp_all
        then have "half_sampled ?h2 (pyr ! (k - 1)) (pyr ! k)"
          using hs(1) st(3) half_sampled_extends by blast
        then show ?thesis using 1 hs(2) by simp
      next
        case 2
        then show ?thesis using st(2,4) p1 ni by simp
      qed
    qed
    have C: "length pyr' = nat n \<and> (\<forall>k<nat (i + 1). pyr' ! k = ?pyr1 ! k) \<and> heap_extends ?h2 h'
       \<and> (\<forall>k<nat n. valid_Mat h' (pyr' ! k))
       \<and> (\<forall>k. 1 \<le> k \<and> k < nat n \<longrightarrow>
            half_sampled h' (pyr' ! (k - 1)) (pyr' ! k) \<and> mat_type (pyr' ! k) = CV_8U)"
    proof (rule "1.IH"[OF True refl mc[symmetric] refl refl refl _ _ _ A B run])
      show "1 \<le> i + 1" using "1.prems"(1) by simp
      show "i + 1 \<le> n" using True by simp
      show "length ?pyr1 = nat n" using "1.prems"(3) by simp
    qed
    have "\<forall>k<nat i. pyr' ! k = pyr ! k"
    proof (intro allI impI)
      fix k assume "k < nat i"
      then have "pyr' ! k = ?pyr1 ! k" "k \<noteq> nat i" using C by auto
      then show "pyr' ! k = pyr ! k" by simp
    qed
    moreover have "heap_extends h h'" using st(3) C heap_extends_trans by blast
    ultimately show ?thesis using C by simp
  qed
qed

lemma length_resize: "length (resize n pyr) = n"
  by (simp add: resize_def)

lemma pyramid_loop_length: "length (fst (pyramid_loop i n pyr h)) = length pyr"
proof (induction i n pyr h rule: pyramid_loop.induct)
  case (1 i n pyr h)
  show ?case
  proof (cases "i < n")
    case False
    then show ?thesis by (simp add: pyramid_loop.simps)
  next
    case True
    let ?prev = "pyr ! nat (i - 1)"
    obtain m h1 where mc: "Mat_create (rows ?prev div 2) (cols ?prev div 2) CV_8U h = (m, h1)"
      by (cases "Mat_create (rows ?prev div 2) (cols ?prev div 2) CV_8U h")
    let ?pyr1 = "pyr[nat i := m]"
    let ?h2 = "halfSample (?pyr1 ! nat (i - 1)) (?pyr1 ! nat i) h1"
    have "pyramid_loop i n pyr h = pyramid_loop (i + 1) n ?pyr1 ?h2"
      using True mc by (subst pyramid_loop.simps) (simp add: Let_def)
    moreover have "length (fst (pyramid_loop (i + 1) n ?pyr1 ?h2)) = length ?pyr1"
      by (rule "1.IH"[OF True refl mc[symmetric] refl refl refl])
    ultimately show ?thesis by simp
  qed
qed

lemma createImgPyramid_length:
  "createImgPyramid im n pyr h = Some (pyr', h') \<Longrightarrow> length pyr' = nat n"
  using pyramid_loop_length[of 1 n "(resize (nat n) pyr)[0 := im]" h]
  by (auto simp: createImgPyramid_def length_resize split: if_splits)

lemma createImgPyramid_one: "createImgPyramid im 1 pyr h = Some ([im], h)"
proof -
  have "(resize (nat 1) pyr)[0 := im] = [im]"
    by (cases pyr) (simp_all add: resize_def Mat_default_def)
  then show ?thesis by (simp add: createImgPyramid_def pyramid_loop.simps)
qed

text \<open>
  C5: for an image whose header is valid in the store (in particular every non-empty
  8-bit single-channel image with its buffer) and at least one level,
  \<open>createImgPyramid\<close> returns a pyramid of exactly \<open>n_levels\<close> levels. Level 0 is the
  header of the input, so it shares the input's buffer, and its pixels are those of the
  input. Every further level has type \<open>CV_8U\<close>, half the rows and half the columns of
  its predecessor, rounded down, and each of its pixels is the average of the
  corresponding 2 by 2 block of the predecessor.
\<close>

theorem createImgPyramid_levels:
  assumes "valid_Mat h img_level_0" and "1 \<le> n_levels"
  shows "\<exists>pyr' h'. createImgPyramid img_level_0 n_levels pyr h = Some (pyr', h')
           \<and> length pyr' = nat n_levels
           \<and> pyr' ! 0 = img_level_0
           \<and> (\<forall>y x. pixel h' (pyr' ! 0) y x = pixel h img_level_0 y x)
           \<and> (\<forall>k. 1 \<le> k \<and> k < nat n_levels \<longrightarrow>
                 half_sampled h' (pyr' ! (k - 1)) (pyr' ! k) \<and> mat_type (pyr' ! k) = CV_8U)"
proof -
  let ?pyr0 = "(resize (nat n_levels) pyr)[0 := img_level_0]"
  obtain pyr' h' where run: "pyramid_loop 1 n_levels ?pyr0 h = (pyr', h')"
    by (cases "pyramid_loop 1 n_levels ?pyr0 h")
  have len: "length ?pyr0 = nat n_levels" by (simp add: length_resize)
  have z: "?pyr0 ! 0 = img_level_0" using assms(2) len by simp
  have A: "\<forall>k<nat 1. valid_Mat h (?pyr0 ! k)" using z assms(1) by simp
  have B: "\<forall>k. 1 \<le> k \<and> k < nat 1 \<longrightarrow>
             half_sampled h (?pyr0 ! (k - 1)) (?pyr0 ! k) \<and> mat_type (?pyr0 ! k) = CV_8U"
    by simp
  from pyramid_loop_inv[OF _ assms(2) len A B run]
  have inv: "length pyr' = nat n_levels" "\<forall>k<nat 1. pyr' ! k = ?pyr0 ! k" "heap_extends h h'"
      "\<forall>k. 1 \<le> k \<and> k < nat n_levels \<longrightarrow>
         half_sampled h' (pyr' ! (k - 1)) (pyr' ! k) \<and> mat_type (pyr' ! k) = CV_8U"
    by simp_all
  have p0: "pyr' ! 0 = img_level_0" using inv(2) z by simp
  have px: "\<forall>y x. pixel h' (pyr' ! 0) y x = pixel h img_level_0 y x"
    using p0 pixel_extends[OF assms(1) inv(3)] by simp
  have "createImgPyramid img_level_0 n_levels pyr h = Some (pyr', h')"
    using assms(2) run by (simp add: createImgPyramid_def)
  then show ?thesis using inv(1,4) p0 px by blast
qed

text \<open>
  C5 at the 4 by 2 image with the rows 10, 20, 30, 40 and 50, 60, 70, 80 and two
  levels: level 1 is 2 by 1 with the pixels 35 and 55.
\<close>

theorem createImgPyramid_levels_witness:
  "valid_Mat small_heap small_img \<and> \<not> Mat_empty small_img \<and> mat_type small_img = CV_8UC1
   \<and> (\<exists>pyr' h'. createImgPyramid small_img 2 [] small_heap = Some (pyr', h')
         \<and> length pyr' = 2 \<and> pyr' ! 0 = small_img
         \<and> rows (pyr' ! 1) = 1 \<and> cols (pyr' ! 1) = 2
         \<and> pixel h' (pyr' ! 1) 0 0 = 35 \<and> pixel h' (pyr' ! 1) 0 1 = 55)"
proof -
  have v: "valid_Mat small_heap small_img"
    by (simp add: valid_Mat_def small_heap_def small_img_def)
  have e: "\<not> Mat_empty small_img" "mat_type small_img = CV_8UC1"
    by (simp_all add: Mat_empty_def small_img_def)
  have n: "(1::int) \<le> 2" by simp
  from createImgPyramid_levels[OF v n, of "[]"]
  obtain pyr' h' where r: "createImgPyramid small_img 2 [] small_heap = Some (pyr', h')"
      "length pyr' = nat 2" "pyr' ! 0 = small_img"
      "\<forall>y x. pixel h' (pyr' ! 0) y x = pixel small_heap small_img y x"
      "\<forall>k. 1 \<le> k \<and> k < nat 2 \<longrightarrow> half_sampled h' (pyr' ! (k - 1)) (pyr' ! k)
         \<and> mat_type (pyr' ! k) = CV_8U"
    by blast
  have hs: "half_sampled h' (pyr' ! 0) (pyr' ! 1)" using r(5)[rule_format, of 1] by simp
  have px: "pixel h' (pyr' ! 0) y x = buf_at [10, 20, 30, 40, 50, 60, 70, 80] 4 y x" for y x
    using r(4) by (simp add: pixel_def small_img_def small_heap_def)
  have d: "rows (pyr' ! 1) = 1" "cols (pyr' ! 1) = 2"
    using hs r(3) by (simp_all add: half_sampled_def small_img_def)
  have a: "pixel h' (pyr' ! 1) 0 0 = 35"
    using hs d by (simp add: half_sampled_def px buf_at_def box_average_def)
  have b: "pixel h' (pyr' ! 1) 0 1 = 55"
    using hs d by (simp add: half_sampled_def px buf_at_def box_average_def)
  show ?thesis using v e r(1,2,3) d a b by auto
qed

text \<open>
  C4, as stated, fails: the constructor stores the image and builds nothing else. The
  frame constructed from a 4 by 4 image holds this one image, while the pyramid of
  three levels that \<open>createImgPyramid\<close> builds from the same image has two further
  levels in buffers of their own.
\<close>

theorem Frame_ctor_builds_no_pyramid:
  "map_sum id frame_images (fst (Frame_ctor wide_cam square_img fresh_process)) = Inr [square_img]
   \<and> createImgPyramid square_img 3 [] square_heap
       = Some ([square_img,
                \<lparr>rows = 2, cols = 2, mat_type = CV_8U, data = Some 1\<rparr>,
                \<lparr>rows = 1, cols = 1, mat_type = CV_8U, data = Some 2\<rparr>],
               [replicate 16 100, replicate 4 100, replicate 1 100])"
proof -
  have "map_sum id frame_images (fst (Frame_ctor wide_cam square_img fresh_process)) = Inr [square_img]"
    by (simp add: Frame_ctor_result Mat_empty_def square_img_def frame_images_def)
  moreover have "createImgPyramid square_img 3 [] square_heap
       = Some ([square_img,
                \<lparr>rows = 2, cols = 2, mat_type = CV_8U, data = Some 1\<rparr>,
                \<lparr>rows = 1, cols = 1, mat_type = CV_8U, data = Some 2\<rparr>],
               [replicate 16 100, replicate 4 100, replicate 1 100])"
    by code_simp
  ultimately show ?thesis by simp
qed

text \<open>
  C4, amended: a successfully constructed frame holds exactly the supplied image, that
  is, level 0 of the pyramid, sharing the input's buffer: what it holds is the pyramid
  of one level, and differs from every pyramid of two or more levels. The further
  levels exist only once \<open>createImgPyramid\<close> is called, which the constructor does not
  do.
\<close>

theorem Frame_ctor_holds_level_0_only:
  assumes "fst (Frame_ctor camera im st) = Inr f"
  shows "frame_images f = [im]
       \<and> createImgPyramid im 1 pyr h = Some (frame_images f, h)
       \<and> (\<forall>n pyr' h'. 2 \<le> n \<and> createImgPyramid im n pyr h = Some (pyr', h')
            \<longrightarrow> length pyr' = nat n \<and> frame_images f \<noteq> pyr')"
proof -
  have i: "img f = im" using assms by (auto simp: Frame_ctor_result split: if_splits)
  then have fi: "frame_images f = [im]" by (simp add: frame_images_def)
  have "length pyr' = nat n \<and> frame_images f \<noteq> pyr'"
    if "2 \<le> n" "createImgPyramid im n pyr h = Some (pyr', h')" for n pyr' h'
  proof -
    have "length pyr' = nat n" using that(2) by (rule createImgPyramid_length)
    moreover have "length (frame_images f) = 1" using fi by simp
    ultimately show ?thesis using that(1) by auto
  qed
  then show ?thesis using fi createImgPyramid_one by auto
qed

theorem Frame_ctor_holds_level_0_only_witness:
  "fst (Frame_ctor wide_cam square_img fresh_process)
     = Inr \<lparr>id_frame = 0, cam = wide_cam, img = square_img, fts = []\<rparr>
   \<and> frame_images \<lparr>id_frame = 0, cam = wide_cam, img = square_img, fts = []\<rparr> = [square_img]
   \<and> createImgPyramid square_img 1 [] square_heap = Some ([square_img], square_heap)"
proof -
  have c: "fst (Frame_ctor wide_cam square_img fresh_process)
      = Inr \<lparr>id_frame = 0, cam = wide_cam, img = square_img, fts = []\<rparr>"
    by (simp add: Frame_ctor_result Mat_empty_def square_img_def fresh_process_def)
  show ?thesis
    using Frame_ctor_holds_level_0_only[OF c, of "[]" square_heap] c by simp
qed

end
